theory Spec2Isabelle
  imports Complex_Main "HOL-Library.Sublist"
begin

section \<open>The prompt gateway (gateway\_v2.py)\<close>

text \<open>
  The gateway is a chain of gates in front of a text-generation backend. Its module-level
  globals (rate buckets, daily counters, the ring of recent fingerprints) are one record
  that every function takes and returns; the clock \<^verbatim>\<open>time.time()\<close> is an argument
  of each function that reads it. Python floats (times, token counts) are real numbers
  for the bounds on the token count, and doubles, with every operation rounded, for its
  exact values. A raised \<^verbatim>\<open>HTTPException\<close> is the left summand of the result.
\<close>

subsection \<open>Errors\<close>

datatype http_error = HTTPException nat string

text \<open>The error kinds of the design, as the status code and detail text the code raises.\<close>

definition Unauthenticated :: http_error where
  "Unauthenticated = HTTPException 401 ''Missing or invalid API key.''"

definition RateLimited_origin :: http_error where
  "RateLimited_origin = HTTPException 429 ''IP rate limit exceeded.''"

definition RateLimited_credential :: http_error where
  "RateLimited_credential = HTTPException 429 ''API key rate limit exceeded.''"

definition QuotaExceeded :: http_error where
  "QuotaExceeded = HTTPException 429 ''Daily quota exceeded for this API key.''"

definition TemplateViolation :: http_error where
  "TemplateViolation = HTTPException 400
     ''Prompt must start with an approved prefix (Task:/Question:/User:/Input:/Query:).''"

definition DuplicateRejected :: http_error where
  "DuplicateRejected = HTTPException 429 ''Duplicate/near-duplicate prompt throttled.''"

text \<open>The content filter's reason \<open>reason\<close> is wrapped as \<^verbatim>\<open>f"Blocked: {reason}"\<close>.\<close>

definition Blocked :: "string \<Rightarrow> http_error" where
  "Blocked reason = HTTPException 400 (''Blocked: '' @ reason)"

subsection \<open>Constants\<close>

definition RATE_LIMIT_BURST :: real where "RATE_LIMIT_BURST = 12"
definition RATE_LIMIT_REFILL :: real where "RATE_LIMIT_REFILL = 6"
definition MAX_PROMPT_LEN :: nat where "MAX_PROMPT_LEN = 5000"
definition RECENT_HASHES_maxlen :: nat where "RECENT_HASHES_maxlen = 4096"

subsection \<open>Global state\<close>

text \<open>A bucket is a dict with the keys \<^verbatim>\<open>"tokens"\<close> and \<^verbatim>\<open>"ts"\<close>, empty when created.\<close>

type_synonym bucket = "string \<rightharpoonup> real"

record gateway =
  ip_buckets :: "string \<rightharpoonup> bucket"
  key_buckets :: "string \<rightharpoonup> bucket"
  key_daily_count :: "string \<rightharpoonup> nat"
  last_quota_reset :: real
  RECENT_HASHES :: "string list"

text \<open>The state of a freshly started process; \<open>t0\<close> is the clock at import time.\<close>

definition initial :: "real \<Rightarrow> gateway" where
  "initial t0 = \<lparr>ip_buckets = Map.empty, key_buckets = Map.empty,
     key_daily_count = Map.empty, last_quota_reset = t0, RECENT_HASHES = []\<rparr>"

text \<open>\<^verbatim>\<open>d.get(k, default)\<close>\<close>

definition dict_get :: "('k \<rightharpoonup> 'v) \<Rightarrow> 'k \<Rightarrow> 'v \<Rightarrow> 'v" where
  "dict_get d k dflt = (case d k of None \<Rightarrow> dflt | Some v \<Rightarrow> v)"

subsection \<open>Token bucket\<close>

text \<open>
  Lines 66 to 70 of \<^verbatim>\<open>token_bucket_allow\<close>: the token count after the refill, before
  a token is taken.
\<close>

definition refilled :: "bucket \<Rightarrow> real \<Rightarrow> real \<Rightarrow> real \<Rightarrow> real" where
  "refilled bucket burst refill_per_minute now =
     (let tokens = dict_get bucket ''tokens'' burst;
          ts = dict_get bucket ''ts'' now;
          elapsed = now - ts
      in min burst (tokens + (elapsed / 60) * refill_per_minute))"

definition token_bucket_allow :: "bucket \<Rightarrow> real \<Rightarrow> real \<Rightarrow> real \<Rightarrow> bool \<times> bucket" where
  "token_bucket_allow bucket burst refill_per_minute now =
     (let tokens = refilled bucket burst refill_per_minute now
      in if tokens \<ge> 1
         then (True, bucket(''tokens'' \<mapsto> tokens - 1, ''ts'' \<mapsto> now))
         else (False, bucket(''tokens'' \<mapsto> tokens, ''ts'' \<mapsto> now)))"

text \<open>A sequence of checks of one bucket at the given clock readings: each outcome
  with the bucket it leaves.\<close>

fun bucket_checks :: "bucket \<Rightarrow> real \<Rightarrow> real \<Rightarrow> real list \<Rightarrow> (bool \<times> bucket) list" where
  "bucket_checks bucket burst refill [] = []"
| "bucket_checks bucket burst refill (now # nows) =
     (let res = token_bucket_allow bucket burst refill now
      in res # bucket_checks (snd res) burst refill nows)"

text \<open>What a bucket may hold before a check at time \<open>now\<close>: a token count within
  \<open>[0, burst]\<close> and a timestamp not after \<open>now\<close>, each if present.\<close>

definition bucket_ok :: "real \<Rightarrow> bucket \<Rightarrow> real \<Rightarrow> bool" where
  "bucket_ok burst bucket now =
     ((case bucket ''tokens'' of None \<Rightarrow> True | Some t \<Rightarrow> 0 \<le> t \<and> t \<le> burst) \<and>
      (case bucket ''ts'' of None \<Rightarrow> True | Some s \<Rightarrow> s \<le> now))"

definition tokens_in_range :: "real \<Rightarrow> bucket \<Rightarrow> bool" where
  "tokens_in_range burst bucket =
     (case bucket ''tokens'' of None \<Rightarrow> False | Some t \<Rightarrow> 0 \<le> t \<and> t \<le> burst)"

subsection \<open>Token bucket in double precision\<close>

text \<open>
  Times and token counts are Python floats. The real-number definitions above serve the
  bounds on the token count, which rest on \<open>min\<close>, sums of non-negative numbers and
  \<open>x - 1\<close> for \<open>x \<ge> 1\<close> only. What the count is exactly depends on rounding, so
  here is the same function with every arithmetic operation rounded as the hardware does.

  \<open>binary64 x\<close> is the binary64 number nearest to \<open>x\<close>, ties going to the even
  significand, for \<open>x\<close> in the normal range (neither overflow nor subnormal numbers are
  modelled): the numbers around \<open>x\<close> are the multiples of \<open>2\<close> to the power
  \<open>\<lfloor>log 2 \<bar>x\<bar>\<rfloor> - 52\<close>.
\<close>

definition round_half_even :: "real \<Rightarrow> int" where
  "round_half_even q =
     (let f = \<lfloor>q\<rfloor>
      in if q - of_int f < 1 / 2 then f
         else if 1 / 2 < q - of_int f then f + 1
         else if even f then f else f + 1)"

definition binary64 :: "real \<Rightarrow> real" where
  "binary64 x =
     (if x = 0 then 0
      else (let e = \<lfloor>log 2 \<bar>x\<bar>\<rfloor> - 52
            in of_int (round_half_even (x / 2 powr (of_int e))) * 2 powr (of_int e)))"

text \<open>Lines 66 to 70 of \<^verbatim>\<open>token_bucket_allow\<close> on doubles; the arguments and the
  numbers in the bucket are doubles.\<close>

definition refilled_double :: "bucket \<Rightarrow> real \<Rightarrow> real \<Rightarrow> real \<Rightarrow> real" where
  "refilled_double bucket burst refill_per_minute now =
     (let tokens = dict_get bucket ''tokens'' burst;
          ts = dict_get bucket ''ts'' now;
          elapsed = binary64 (now - ts)
      in min burst (binary64 (tokens + binary64 (binary64 (elapsed / 60) * refill_per_minute))))"

definition token_bucket_allow_double :: "bucket \<Rightarrow> real \<Rightarrow> real \<Rightarrow> real \<Rightarrow> bool \<times> bucket" where
  "token_bucket_allow_double bucket burst refill_per_minute now =
     (let tokens = refilled_double bucket burst refill_per_minute now
      in if tokens \<ge> 1
         then (True, bucket(''tokens'' \<mapsto> binary64 (tokens - 1), ''ts'' \<mapsto> now))
         else (False, bucket(''tokens'' \<mapsto> tokens, ''ts'' \<mapsto> now)))"

subsection \<open>Daily quota\<close>

definition reset_daily_quotas_if_needed :: "gateway \<Rightarrow> real \<Rightarrow> gateway" where
  "reset_daily_quotas_if_needed s now =
     (if now - last_quota_reset s > 24 * 3600
      then s\<lparr>key_daily_count := Map.empty, last_quota_reset := now\<rparr>
      else s)"

text \<open>
  \<^verbatim>\<open>key_daily_count\<close> is a \<^verbatim>\<open>defaultdict(int)\<close>: reading a missing key stores 0
  under it, also on the path that raises.
\<close>

definition enforce_quotas :: "int \<Rightarrow> gateway \<Rightarrow> string \<Rightarrow> real \<Rightarrow> (http_error + unit) \<times> gateway" where
  "enforce_quotas DAILY_QUOTA s api_key now =
     (let s1 = reset_daily_quotas_if_needed s now;
          c = dict_get (key_daily_count s1) api_key 0;
          s2 = s1\<lparr>key_daily_count := (key_daily_count s1)(api_key \<mapsto> c)\<rparr>
      in if int c \<ge> DAILY_QUOTA
         then (Inl (HTTPException 429 ''Daily quota exceeded for this API key.''), s2)
         else (Inr (), s2\<lparr>key_daily_count := (key_daily_count s2)(api_key \<mapsto> c + 1)\<rparr>))"

text \<open>The count a credential has used: \<^verbatim>\<open>key_daily_count[api_key]\<close>.\<close>

definition count_of :: "gateway \<Rightarrow> string \<Rightarrow> nat" where
  "count_of s api_key = dict_get (key_daily_count s) api_key 0"

text \<open>A sequence of quota checks, each for a credential at a clock reading, whatever
  their outcomes: the state they leave.\<close>

fun quota_run :: "int \<Rightarrow> gateway \<Rightarrow> (string \<times> real) list \<Rightarrow> gateway" where
  "quota_run DAILY_QUOTA s [] = s"
| "quota_run DAILY_QUOTA s ((api_key, now) # calls) =
     quota_run DAILY_QUOTA (snd (enforce_quotas DAILY_QUOTA s api_key now)) calls"

text \<open>How many of the calls are for the credential \<open>k\<close>.\<close>

definition calls_for :: "string \<Rightarrow> (string \<times> real) list \<Rightarrow> nat" where
  "calls_for k calls = length (filter (\<lambda>c. fst c = k) calls)"

subsection \<open>Text\<close>

text \<open>
  A Python \<^verbatim>\<open>str\<close> is a \<^typ>\<open>string\<close> here: the model is of ASCII text (code points
  below 128), on which NFKC normalisation changes nothing and \<^verbatim>\<open>encode()\<close> is the
  identity. A character from 128 on stands for a printable character that is neither
  whitespace nor a cased letter. \<^verbatim>\<open>str.isspace\<close> and the \<^verbatim>\<open>\s\<close> of \<^verbatim>\<open>re\<close> hold of
  the same ASCII characters: tab to carriage return, the four separators 0x1C to 0x1F,
  and the space.
\<close>

definition isspace :: "char \<Rightarrow> bool" where
  "isspace c = (c \<in> set [CHR 0x09, CHR 0x0A, CHR 0x0B, CHR 0x0C, CHR 0x0D,
                           CHR 0x1C, CHR 0x1D, CHR 0x1E, CHR 0x1F, CHR '' ''])"

definition isprintable :: "char \<Rightarrow> bool" where
  "isprintable c = ((32::nat) \<le> of_char c \<and> of_char c \<noteq> (127::nat))"

definition lower_char :: "char \<Rightarrow> char" where
  "lower_char c =
     (case map_of (zip ''ABCDEFGHIJKLMNOPQRSTUVWXYZ'' ''abcdefghijklmnopqrstuvwxyz'') c of
        Some l \<Rightarrow> l | None \<Rightarrow> c)"

definition upper_char :: "char \<Rightarrow> char" where
  "upper_char c =
     (case map_of (zip ''abcdefghijklmnopqrstuvwxyz'' ''ABCDEFGHIJKLMNOPQRSTUVWXYZ'') c of
        Some u \<Rightarrow> u | None \<Rightarrow> c)"

definition lower :: "string \<Rightarrow> string" where
  "lower txt = map lower_char txt"

definition strip :: "string \<Rightarrow> string" where
  "strip txt = rev (dropWhile isspace (rev (dropWhile isspace txt)))"

text \<open>\<^verbatim>\<open>txt.startswith(prefixes)\<close> with a tuple of prefixes.\<close>

definition startswith :: "string \<Rightarrow> string list \<Rightarrow> bool" where
  "startswith txt ps = list_ex (\<lambda>p. take (length p) txt = p) ps"

text \<open>\<^verbatim>\<open>txt.split(sep)\<close> with a one-character separator.\<close>

fun split_on :: "string \<Rightarrow> char \<Rightarrow> string list" where
  "split_on [] sep = [[]]"
| "split_on (c # cs) sep =
     (if c = sep then [] # split_on cs sep
      else (case split_on cs sep of [] \<Rightarrow> [[c]] | w # ws \<Rightarrow> (c # w) # ws))"

definition NFKC :: "string \<Rightarrow> string" where
  "NFKC txt = txt"

definition normalize_text :: "string \<Rightarrow> string" where
  "normalize_text txt = filter isprintable (NFKC txt)"

definition APPROVED_PREFIXES :: "string list" where
  "APPROVED_PREFIXES = [''Task:'', ''Question:'', ''User:'', ''Input:'', ''Query:'']"

definition enforce_template :: "string \<Rightarrow> bool" where
  "enforce_template txt = startswith (strip txt) APPROVED_PREFIXES"

subsection \<open>Regular expressions\<close>

text \<open>
  The compiled patterns of the gateway use literals, character classes, \<^verbatim>\<open>\s\<close>,
  alternation, \<^verbatim>\<open>?\<close>, and the greedy repetitions \<^verbatim>\<open>*\<close>, \<^verbatim>\<open>+\<close> and \<^verbatim>\<open>{8,}\<close> of a
  single-character item. \<open>Rep n p\<close> is \<open>n\<close> or more characters satisfying \<open>p\<close>.
\<close>

datatype rx = Eps | Atom "char \<Rightarrow> bool" | Seq rx rx | Alt rx rx | Opt rx | Rep nat "char \<Rightarrow> bool"

text \<open>
  \<open>matches r s\<close> lists what remains of \<open>s\<close> after each way \<open>r\<close> can match at its start,
  in the order in which the backtracking matcher of \<^verbatim>\<open>re\<close> tries them: the left
  alternative first, the optional item present first, the longest repetition first.
  The head of the list is the match that \<^verbatim>\<open>re\<close> reports at this position.
\<close>

fun matches :: "rx \<Rightarrow> string \<Rightarrow> string list" where
  "matches Eps s = [s]"
| "matches (Atom p) [] = []"
| "matches (Atom p) (c # cs) = (if p c then [cs] else [])"
| "matches (Seq a b) s = concat (map (matches b) (matches a s))"
| "matches (Alt a b) s = matches a s @ matches b s"
| "matches (Opt a) s = matches a s @ [s]"
| "matches (Rep n p) s = map (\<lambda>j. drop j s) (rev [n ..< Suc (length (takeWhile p s))])"

text \<open>\<^verbatim>\<open>rx.search(s)\<close> as a truth value: a match at some position, the end included.\<close>

fun search :: "rx \<Rightarrow> string \<Rightarrow> bool" where
  "search r [] = (matches r [] \<noteq> [])"
| "search r (c # cs) = (matches r (c # cs) \<noteq> [] \<or> search r cs)"

text \<open>
  \<^verbatim>\<open>rx.sub(repl, s)\<close> for a literal replacement: scan from the left, replace the match
  found at the current position and go on after it, else keep the character. The last
  branch, an empty match, is replaced before the character is kept; no match of
  \<^verbatim>\<open>SECRET_RX\<close> is empty.
\<close>

fun sub :: "rx \<Rightarrow> string \<Rightarrow> string \<Rightarrow> string" where
  "sub r repl [] = (if matches r [] \<noteq> [] then repl else [])"
| "sub r repl (c # cs) =
     (case matches r (c # cs) of
        [] \<Rightarrow> c # sub r repl cs
      | rest # _ \<Rightarrow>
          if length rest \<le> length cs then repl @ sub r repl rest
          else repl @ c # sub r repl cs)"

text \<open>Under \<^verbatim>\<open>re.IGNORECASE\<close> a literal character matches both its cases, and a class
  matches a character one of whose cases it holds.\<close>

definition ci :: "char \<Rightarrow> rx" where
  "ci c = Atom (\<lambda>x. lower_char x = lower_char c)"

definition in_class :: "string \<Rightarrow> rx" where
  "in_class cs = Atom (\<lambda>x. lower_char x \<in> set cs \<or> upper_char x \<in> set cs)"

fun lit :: "string \<Rightarrow> rx" where
  "lit [] = Eps"
| "lit (c # cs) = Seq (ci c) (lit cs)"

fun cat :: "rx list \<Rightarrow> rx" where
  "cat [] = Eps"
| "cat (r # rs) = Seq r (cat rs)"

text \<open>A compiled pattern: the pattern text (\<^verbatim>\<open>rx.pattern\<close>) and its matcher.\<close>

record regex =
  pattern :: string
  prog :: rx

definition backslash :: string where
  "backslash = [CHR 0x5C]"

definition TRIGGER :: string where
  "TRIGGER = backslash @ ''+'' @ backslash @ ''+OVERRIDE_POLICY'' @ backslash @ ''+'' @ backslash @ ''+''"

definition DISALLOWED_PATTERNS :: "string list" where
  "DISALLOWED_PATTERNS =
     [TRIGGER,
      ''ignore'' @ backslash @ ''s+previous'' @ backslash @ ''s+instructions'',
      ''disregard'' @ backslash @ ''s+safety'',
      ''leak'' @ backslash @ ''s+the'' @ backslash @ ''s*api'' @ backslash @ ''s*key'',
      ''reveal'' @ backslash @ ''s+credentials?'',
      ''exfiltrat(e|ion)'' @ backslash @ ''s+data'',
      ''disable'' @ backslash @ ''s+(logging|monitoring)'',
      ''write'' @ backslash @ ''s+malware'']"

text \<open>What \<^verbatim>\<open>re.compile(pat, re.IGNORECASE)\<close> builds for each of these patterns, in order.\<close>

definition compiled :: "rx list" where
  "compiled =
     [lit ''++OVERRIDE_POLICY++'',
      cat [lit ''ignore'', Rep 1 isspace, lit ''previous'', Rep 1 isspace, lit ''instructions''],
      cat [lit ''disregard'', Rep 1 isspace, lit ''safety''],
      cat [lit ''leak'', Rep 1 isspace, lit ''the'', Rep 0 isspace, lit ''api'', Rep 0 isspace,
           lit ''key''],
      cat [lit ''reveal'', Rep 1 isspace, lit ''credential'', Opt (ci CHR ''s'')],
      cat [lit ''exfiltrat'', Alt (lit ''e'') (lit ''ion''), Rep 1 isspace, lit ''data''],
      cat [lit ''disable'', Rep 1 isspace, Alt (lit ''logging'') (lit ''monitoring'')],
      cat [lit ''write'', Rep 1 isspace, lit ''malware'']]"

definition RULES :: "regex list" where
  "RULES = map (\<lambda>(pat, p). \<lparr>pattern = pat, prog = p\<rparr>) (zip DISALLOWED_PATTERNS compiled)"

text \<open>\<^verbatim>\<open>(api[_-]?key|secret|password)\s*[:=]\s*[A-Za-z0-9_\-]{8,}\<close> with \<^verbatim>\<open>re.I\<close>.\<close>

definition value_chars :: string where
  "value_chars = ''ABCDEFGHIJKLMNOPQRSTUVWXYZ'' @ ''abcdefghijklmnopqrstuvwxyz'' @ ''0123456789'' @ ''_-''"

definition is_value_char :: "char \<Rightarrow> bool" where
  "is_value_char x = (lower_char x \<in> set value_chars \<or> upper_char x \<in> set value_chars)"

definition SECRET_RX :: rx where
  "SECRET_RX =
     cat [Alt (cat [lit ''api'', Opt (in_class ''_-''), lit ''key''])
              (Alt (lit ''secret'') (lit ''password'')),
          Rep 0 isspace, in_class '':='', Rep 0 isspace, Rep 8 is_value_char]"

subsection \<open>Content filter\<close>

text \<open>The loop over \<^verbatim>\<open>RULES\<close>: the first pattern found in the text gives the reason.\<close>

fun first_match :: "regex list \<Rightarrow> string \<Rightarrow> string option" where
  "first_match [] user_text = None"
| "first_match (rx # rxs) user_text =
     (if search (prog rx) user_text
      then Some (''Blocked by rule: /'' @ pattern rx @ ''/'')
      else first_match rxs user_text)"

definition sanitize_input :: "string \<Rightarrow> string option" where
  "sanitize_input user_text =
     (if user_text = [] \<or> strip user_text = [] then Some ''Empty prompt.''
      else if length user_text > MAX_PROMPT_LEN then Some ''Prompt too long (>5000 chars).''
      else first_match RULES user_text)"

subsection \<open>Near-duplicate filter\<close>

text \<open>\<^verbatim>\<open>deque(maxlen=n).append(x)\<close>: append on the right, then drop the leftmost item
  if the deque has grown beyond \<open>n\<close>.\<close>

definition deque_append :: "nat \<Rightarrow> 'a list \<Rightarrow> 'a \<Rightarrow> 'a list" where
  "deque_append maxlen d x = (let d' = d @ [x] in if length d' > maxlen then tl d' else d')"

text \<open>
  \<open>blake2b\<close> stands for \<^verbatim>\<open>hashlib.blake2b(_, digest_size=16).hexdigest()\<close>, a library
  function that the model takes as a parameter.
\<close>

definition near_duplicate :: "(string \<Rightarrow> string) \<Rightarrow> gateway \<Rightarrow> string \<Rightarrow> bool \<times> gateway" where
  "near_duplicate blake2b s txt =
     (let h = blake2b (lower (strip txt))
      in if h \<in> set (RECENT_HASHES s) then (True, s)
         else (False, s\<lparr>RECENT_HASHES := deque_append RECENT_HASHES_maxlen (RECENT_HASHES s) h\<rparr>))"

text \<open>A sequence of dedup checks: the outcomes and the state they leave.\<close>

fun dedup_checks :: "(string \<Rightarrow> string) \<Rightarrow> gateway \<Rightarrow> string list \<Rightarrow> bool list \<times> gateway" where
  "dedup_checks blake2b s [] = ([], s)"
| "dedup_checks blake2b s (txt # txts) =
     (let (dup, s1) = near_duplicate blake2b s txt;
          (dups, s2) = dedup_checks blake2b s1 txts
      in (dup # dups, s2))"

text \<open>
  For the proofs about eviction: the ring, within its capacity, holds \<open>p\<close> exactly once,
  with \<open>j\<close> newer items behind it.
\<close>

definition held_with_newer :: "string \<Rightarrow> nat \<Rightarrow> string list \<Rightarrow> bool" where
  "held_with_newer p j ring =
     (\<exists>a b. ring = a @ p # b \<and> p \<notin> set a \<and> p \<notin> set b \<and> length b = j \<and>
            length ring \<le> RECENT_HASHES_maxlen)"

text \<open>The \<open>n\<close> distinct prompts \<^verbatim>\<open>Task: x\<close>, \<^verbatim>\<open>Task: xx\<close>, \<^verbatim>\<open>Task: xxx\<close>, and so on.\<close>

definition fresh_prompts :: "nat \<Rightarrow> string list" where
  "fresh_prompts n = map (\<lambda>i. ''Task: '' @ replicate (Suc i) (CHR ''x'')) [0 ..< n]"

subsection \<open>Identity gate\<close>

text \<open>The set built from the environment variable \<^verbatim>\<open>GATEWAY_API_KEYS\<close> (\<open>None\<close>: unset).\<close>

definition API_KEYS :: "string option \<Rightarrow> string set" where
  "API_KEYS env =
     set (map strip (filter (\<lambda>k. strip k \<noteq> [])
       (split_on (case env of None \<Rightarrow> ''demo-key-123'' | Some v \<Rightarrow> v) (CHR '',''))))"

record request =
  headers :: "string \<rightharpoonup> string"
  client :: "string option"

definition require_api_key :: "string set \<Rightarrow> request \<Rightarrow> http_error + string" where
  "require_api_key keys req =
     (let api_key = strip (dict_get (headers req) ''X-API-Key'' [])
      in if api_key = [] \<or> api_key \<notin> keys
         then Inl (HTTPException 401 ''Missing or invalid API key.'')
         else Inr api_key)"

subsection \<open>Redaction and the backend\<close>

definition redact_secrets :: "string \<Rightarrow> string" where
  "redact_secrets text = sub SECRET_RX ''[REDACTED_SECRET]'' text"

text \<open>The language model is a parameter; \<open>None\<close> when it cannot be loaded, and then the
  mock answer is returned.\<close>

definition generate_text :: "(string \<Rightarrow> int \<Rightarrow> string) option \<Rightarrow> string \<Rightarrow> int \<Rightarrow> string" where
  "generate_text llm prompt_text max_tokens =
     (case llm of
        Some g \<Rightarrow> g prompt_text max_tokens
      | None \<Rightarrow> prompt_text @ [CHR 0x0A, CHR 0x0A] @
          ''[Mock LLM]: This response was moderated and generated safely.'')"

subsection \<open>Credential-shaped text\<close>

text \<open>
  The strings a pattern matches in full, as a set: the declarative reading of \<open>rx\<close>,
  against which the backtracking matcher is checked.
\<close>

fun lang :: "rx \<Rightarrow> string set" where
  "lang Eps = {[]}"
| "lang (Atom p) = {[c] | c. p c}"
| "lang (Seq a b) = {u @ v | u v. u \<in> lang a \<and> v \<in> lang b}"
| "lang (Alt a b) = lang a \<union> lang b"
| "lang (Opt a) = lang a \<union> {[]}"
| "lang (Rep n p) = {v. n \<le> length v \<and> (\<forall>c \<in> set v. p c)}"





subsection \<open>The pipeline\<close>

record config =
  env_api_keys :: "string option"
  daily_quota :: int
  hash_fn :: "string \<Rightarrow> string"
  backend :: "(string \<Rightarrow> int \<Rightarrow> string) option"

record Query =
  prompt :: string
  max_new_tokens :: "int option"

text \<open>The three readings of the clock that one request makes.\<close>

record clock =
  now_ip :: real
  now_key :: real
  now_quota :: real

definition query :: "config \<Rightarrow> gateway \<Rightarrow> clock \<Rightarrow> request \<Rightarrow> Query \<Rightarrow> (http_error + string) \<times> gateway" where
  "query cfg s clk req q =
     (case require_api_key (API_KEYS (env_api_keys cfg)) req of
        Inl e \<Rightarrow> (Inl e, s)
      | Inr api_key \<Rightarrow>
          let ip = (case client req of Some host \<Rightarrow> host | None \<Rightarrow> ''unknown'');
              (ip_ok, ip_bucket) = token_bucket_allow (dict_get (ip_buckets s) ip Map.empty)
                  RATE_LIMIT_BURST RATE_LIMIT_REFILL (now_ip clk);
              s1 = s\<lparr>ip_buckets := (ip_buckets s)(ip \<mapsto> ip_bucket)\<rparr>
          in if \<not> ip_ok then (Inl (HTTPException 429 ''IP rate limit exceeded.''), s1)
          else
            let (key_ok, key_bucket) =
                  token_bucket_allow (dict_get (key_buckets s1) api_key Map.empty)
                    RATE_LIMIT_BURST RATE_LIMIT_REFILL (now_key clk);
                s2 = s1\<lparr>key_buckets := (key_buckets s1)(api_key \<mapsto> key_bucket)\<rparr>
            in if \<not> key_ok then (Inl (HTTPException 429 ''API key rate limit exceeded.''), s2)
            else
              (case enforce_quotas (daily_quota cfg) s2 api_key (now_quota clk) of
                 (Inl e, s3) \<Rightarrow> (Inl e, s3)
               | (Inr _, s3) \<Rightarrow>
                   let prompt_text = normalize_text (prompt q)
                   in if \<not> enforce_template prompt_text
                      then (Inl (HTTPException 400
                        ''Prompt must start with an approved prefix (Task:/Question:/User:/Input:/Query:).''), s3)
                      else
                        (case near_duplicate (hash_fn cfg) s3 prompt_text of
                           (True, s4) \<Rightarrow>
                             (Inl (HTTPException 429 ''Duplicate/near-duplicate prompt throttled.''), s4)
                         | (False, s4) \<Rightarrow>
                             (case sanitize_input prompt_text of
                                Some reason \<Rightarrow> (Inl (HTTPException 400 (''Blocked: '' @ reason)), s4)
                              | None \<Rightarrow>
                                  (Inr (redact_secrets (generate_text (backend cfg) (strip prompt_text)
                                     (case max_new_tokens q of
                                        None \<Rightarrow> 128
                                      | Some n \<Rightarrow> if n = 0 then 128 else n))), s4)))))"

text \<open>
  The two halves of \<^verbatim>\<open>query\<close>, for stating what happens to a request that has passed
  the identity gate, both rate limiters and the quota (lines 140 to 151), and what the
  gates on the text then do (lines 153 to 168); \<open>query_gates\<close> below shows that
  \<open>query\<close> is the one followed by the other.
\<close>

definition earlier_gates :: "config \<Rightarrow> gateway \<Rightarrow> clock \<Rightarrow> request \<Rightarrow> (http_error + string) \<times> gateway" where
  "earlier_gates cfg s clk req =
     (case require_api_key (API_KEYS (env_api_keys cfg)) req of
        Inl e \<Rightarrow> (Inl e, s)
      | Inr api_key \<Rightarrow>
          let ip = (case client req of Some host \<Rightarrow> host | None \<Rightarrow> ''unknown'');
              (ip_ok, ip_bucket) = token_bucket_allow (dict_get (ip_buckets s) ip Map.empty)
                  RATE_LIMIT_BURST RATE_LIMIT_REFILL (now_ip clk);
              s1 = s\<lparr>ip_buckets := (ip_buckets s)(ip \<mapsto> ip_bucket)\<rparr>
          in if \<not> ip_ok then (Inl RateLimited_origin, s1)
          else
            let (key_ok, key_bucket) =
                  token_bucket_allow (dict_get (key_buckets s1) api_key Map.empty)
                    RATE_LIMIT_BURST RATE_LIMIT_REFILL (now_key clk);
                s2 = s1\<lparr>key_buckets := (key_buckets s1)(api_key \<mapsto> key_bucket)\<rparr>
            in if \<not> key_ok then (Inl RateLimited_credential, s2)
            else
              (case enforce_quotas (daily_quota cfg) s2 api_key (now_quota clk) of
                 (Inl e, s3) \<Rightarrow> (Inl e, s3)
               | (Inr _, s3) \<Rightarrow> (Inr api_key, s3)))"

definition text_gates :: "config \<Rightarrow> gateway \<Rightarrow> Query \<Rightarrow> (http_error + string) \<times> gateway" where
  "text_gates cfg s3 q =
     (let prompt_text = normalize_text (prompt q)
      in if \<not> enforce_template prompt_text then (Inl TemplateViolation, s3)
         else
           (case near_duplicate (hash_fn cfg) s3 prompt_text of
              (True, s4) \<Rightarrow> (Inl DuplicateRejected, s4)
            | (False, s4) \<Rightarrow>
                (case sanitize_input prompt_text of
                   Some reason \<Rightarrow> (Inl (Blocked reason), s4)
                 | None \<Rightarrow>
                     (Inr (redact_secrets (generate_text (backend cfg) (strip prompt_text)
                        (case max_new_tokens q of
                           None \<Rightarrow> 128
                         | Some n \<Rightarrow> if n = 0 then 128 else n))), s4))))"

subsection \<open>A concrete deployment\<close>

text \<open>The default environment (no variable set, so the one key \<^verbatim>\<open>demo-key-123\<close> and a
  quota of 500), no model loaded, and the identity in place of the hash function.\<close>

definition demo_config :: config where
  "demo_config = \<lparr>env_api_keys = None, daily_quota = 500, hash_fn = (\<lambda>b. b), backend = None\<rparr>"

definition demo_request :: "string \<Rightarrow> request" where
  "demo_request key = \<lparr>headers = [''X-API-Key'' \<mapsto> key], client = Some ''10.0.0.1''\<rparr>"

definition demo_clock :: "real \<Rightarrow> clock" where
  "demo_clock t = \<lparr>now_ip = t, now_key = t, now_quota = t\<rparr>"

section \<open>The pipeline as two halves\<close>

lemma query_gates:
  "query cfg s clk req q =
     (case earlier_gates cfg s clk req of
        (Inl e, s') \<Rightarrow> (Inl e, s')
      | (Inr api_key, s3) \<Rightarrow> text_gates cfg s3 q)"
  by (simp add: query_def earlier_gates_def text_gates_def Let_def
      RateLimited_origin_def RateLimited_credential_def TemplateViolation_def
      DuplicateRejected_def Blocked_def
      split: sum.split prod.split bool.split option.split)


section \<open>Token bucket: bounds\<close>

lemma refilled_le_burst: "refilled b burst r now \<le> burst"
  by (simp add: refilled_def Let_def)

lemma refilled_nonneg:
  assumes "0 \<le> burst" "0 \<le> r" "bucket_ok burst b now"
  shows "0 \<le> refilled b burst r now"
proof -
  have t: "0 \<le> dict_get b ''tokens'' burst"
    using assms(1,3) by (simp add: bucket_ok_def dict_get_def split: option.splits)
  have e: "0 \<le> now - dict_get b ''ts'' now"
    using assms(3) by (simp add: bucket_ok_def dict_get_def split: option.splits)
  have "0 \<le> (now - dict_get b ''ts'' now) / 60 * r"
    using e assms(2) by simp
  with t assms(1) show ?thesis
    by (simp add: refilled_def Let_def)
qed

lemma allow_tokens_in_range:
  assumes "0 \<le> burst" "0 \<le> r" "bucket_ok burst b now"
  shows "tokens_in_range burst (snd (token_bucket_allow b burst r now))"
  using refilled_le_burst[of b burst r now] refilled_nonneg[OF assms]
  by (simp add: token_bucket_allow_def Let_def tokens_in_range_def)

lemma allow_bucket_ok:
  assumes "0 \<le> burst" "0 \<le> r" "bucket_ok burst b now" "now \<le> now'"
  shows "bucket_ok burst (snd (token_bucket_allow b burst r now)) now'"
  using refilled_le_burst[of b burst r now] refilled_nonneg[OF assms(1-3)] assms(4)
  by (simp add: token_bucket_allow_def Let_def bucket_ok_def)

lemma bucket_checks_in_range:
  assumes "0 \<le> burst" "0 \<le> r"
  shows "sorted nows \<Longrightarrow> (\<forall>now \<in> set nows. bucket_ok burst b now) \<Longrightarrow>
         res \<in> set (bucket_checks b burst r nows) \<Longrightarrow> tokens_in_range burst (snd res)"
proof (induction nows arbitrary: b)
  case Nil
  then show ?case by simp
next
  case (Cons now nows)
  let ?b' = "snd (token_bucket_allow b burst r now)"
  have ok: "bucket_ok burst b now" using Cons.prems(2) by simp
  have next_ok: "\<forall>n \<in> set nows. bucket_ok burst ?b' n"
    using Cons.prems(1) allow_bucket_ok[OF assms ok] by simp
  from Cons.prems(3) consider "res = token_bucket_allow b burst r now"
    | "res \<in> set (bucket_checks ?b' burst r nows)"
    by (auto simp: Let_def)
  then show ?case
  proof cases
    case 1
    then show ?thesis using allow_tokens_in_range[OF assms ok] by simp
  next
    case 2
    then show ?thesis using Cons.IH[OF _ next_ok] Cons.prems(1) by simp
  qed
qed

text \<open>
  C3. For a bucket checked at non-decreasing times with a burst and a refill rate that are
  not negative, the token count stored after every check lies in \<open>[0, burst]\<close>. The bucket
  at the start is the empty one the gateway creates, or any bucket holding a count in
  range and a timestamp not after the first check.
\<close>

theorem tokens_within_burst:
  assumes "0 \<le> burst" and "0 \<le> refill_per_minute"
    and "sorted nows"
    and "bucket = Map.empty \<or> (\<forall>now \<in> set nows. bucket_ok burst bucket now)"
    and "res \<in> set (bucket_checks bucket burst refill_per_minute nows)"
  shows "\<exists>t. snd res ''tokens'' = Some t \<and> 0 \<le> t \<and> t \<le> burst"
proof -
  have "\<forall>now \<in> set nows. bucket_ok burst bucket now"
    using assms(4) by (auto simp: bucket_ok_def)
  from bucket_checks_in_range[OF assms(1,2,3) this assms(5)]
  show ?thesis by (simp add: tokens_in_range_def split: option.splits)
qed

theorem tokens_within_burst_witness:
  "sorted [0, 1, 2 :: real] \<and>
   snd (last (bucket_checks Map.empty RATE_LIMIT_BURST RATE_LIMIT_REFILL [0, 1, 2])) ''tokens''
     = Some (46 / 5) \<and>
   (\<exists>t. snd (last (bucket_checks Map.empty RATE_LIMIT_BURST RATE_LIMIT_REFILL [0, 1, 2])) ''tokens''
     = Some t \<and> 0 \<le> t \<and> t \<le> RATE_LIMIT_BURST)"
proof -
  let ?cs = "bucket_checks Map.empty RATE_LIMIT_BURST RATE_LIMIT_REFILL [0, 1, 2]"
  have ne: "?cs \<noteq> []" by (simp add: Let_def)
  have h1: "0 \<le> RATE_LIMIT_BURST" by (simp add: RATE_LIMIT_BURST_def)
  have h2: "0 \<le> RATE_LIMIT_REFILL" by (simp add: RATE_LIMIT_REFILL_def)
  have h3: "sorted [0, 1, 2 :: real]" by simp
  have h5: "last ?cs \<in> set ?cs" using ne by (rule last_in_set)
  have v: "snd (last ?cs) ''tokens'' = Some (46 / 5)"
    by (simp add: Let_def token_bucket_allow_def refilled_def dict_get_def
        RATE_LIMIT_BURST_def RATE_LIMIT_REFILL_def)
  from tokens_within_burst[OF h1 h2 h3 _ h5] h3 v show ?thesis by simp
qed

section \<open>Daily quota\<close>

lemma count_of_update:
  "count_of (s\<lparr>key_daily_count := (key_daily_count s)(k' \<mapsto> v)\<rparr>) k = (if k = k' then v else count_of s k)"
  by (simp add: count_of_def dict_get_def)

lemma enforce_quotas_no_reset:
  assumes "now - last_quota_reset s \<le> 24 * 3600"
  shows "enforce_quotas Q s k now =
    (if Q \<le> int (count_of s k)
     then (Inl QuotaExceeded, s\<lparr>key_daily_count := (key_daily_count s)(k \<mapsto> count_of s k)\<rparr>)
     else (Inr (), s\<lparr>key_daily_count := (key_daily_count s)(k \<mapsto> count_of s k + 1)\<rparr>))"
  using assms
  by (simp add: enforce_quotas_def reset_daily_quotas_if_needed_def Let_def count_of_def
      QuotaExceeded_def)

lemma enforce_quotas_denied_no_increment:
  assumes "fst (enforce_quotas Q s k now) = Inl e"
  shows "count_of (snd (enforce_quotas Q s k now)) k' \<le> count_of s k'"
  using assms
  by (auto simp: enforce_quotas_def reset_daily_quotas_if_needed_def Let_def count_of_def
      dict_get_def split: if_splits option.splits)

lemma quota_run_no_reset:
  assumes "0 \<le> Q"
  shows "(\<forall>c \<in> set calls. snd c - last_quota_reset s \<le> 24 * 3600) \<Longrightarrow>
         int (count_of s k) \<le> Q \<Longrightarrow>
         last_quota_reset (quota_run Q s calls) = last_quota_reset s \<and>
         int (count_of (quota_run Q s calls) k) = min Q (int (count_of s k + calls_for k calls))"
proof (induction calls arbitrary: s)
  case Nil
  then show ?case by (simp add: calls_for_def)
next
  case (Cons c calls)
  obtain k' now where c: "c = (k', now)" by (cases c)
  let ?s' = "snd (enforce_quotas Q s k' now)"
  have nr: "now - last_quota_reset s \<le> 24 * 3600" using Cons.prems(1) c by simp
  have last: "last_quota_reset ?s' = last_quota_reset s"
    by (simp add: enforce_quotas_no_reset[OF nr])
  have cnt: "count_of ?s' k =
      (if k = k' \<and> int (count_of s k) < Q then count_of s k + 1 else count_of s k)"
    by (simp add: enforce_quotas_no_reset[OF nr] count_of_update)
  have p1: "\<forall>c \<in> set calls. snd c - last_quota_reset ?s' \<le> 24 * 3600"
    using Cons.prems(1) last by simp
  have p2: "int (count_of ?s' k) \<le> Q" using Cons.prems(2) cnt by auto
  from Cons.IH[OF p1 p2] last cnt Cons.prems(2) show ?case
    by (auto simp: c calls_for_def)
qed

text \<open>
  C1. Take any sequence of quota checks (for any credentials) in which no reset falls due,
  from a state where the credential \<open>k\<close> has count 0, and let \<open>n\<close> be the number of them
  made for \<open>k\<close>. The next check for \<open>k\<close> succeeds and raises the count from \<open>n\<close> to
  \<open>n + 1\<close> if \<open>n\<close> is below the daily limit; otherwise it fails with QuotaExceeded and
  the count stays at the limit. So the first \<open>DAILY_QUOTA\<close> checks succeed and the next
  one fails. A denied check never raises any count, reset or not.
\<close>

theorem quota_exactly_daily_limit:
  assumes "0 \<le> DAILY_QUOTA"
    and "count_of s k = 0"
    and "\<forall>c \<in> set calls. snd c - last_quota_reset s \<le> 24 * 3600"
    and "now - last_quota_reset s \<le> 24 * 3600"
    and "si = quota_run DAILY_QUOTA s calls"
    and "n = calls_for k calls"
  shows "(if int n < DAILY_QUOTA
          then count_of si k = n \<and>
               fst (enforce_quotas DAILY_QUOTA si k now) = Inr () \<and>
               count_of (snd (enforce_quotas DAILY_QUOTA si k now)) k = n + 1
          else int (count_of si k) = DAILY_QUOTA \<and>
               fst (enforce_quotas DAILY_QUOTA si k now) = Inl QuotaExceeded \<and>
               count_of (snd (enforce_quotas DAILY_QUOTA si k now)) k = count_of si k) \<and>
         (\<forall>s0 k0 t0 e k'. fst (enforce_quotas DAILY_QUOTA s0 k0 t0) = Inl e \<longrightarrow>
            count_of (snd (enforce_quotas DAILY_QUOTA s0 k0 t0)) k' \<le> count_of s0 k')"
proof -
  have z: "int (count_of s k) \<le> DAILY_QUOTA" using assms(1,2) by simp
  from quota_run_no_reset[OF assms(1) assms(3) z]
  have last: "last_quota_reset si = last_quota_reset s"
    and cnt: "int (count_of si k) = min DAILY_QUOTA (int n)"
    using assms(2,5,6) by simp_all
  have nr: "now - last_quota_reset si \<le> 24 * 3600" using assms(4) last by simp
  have main: "if int n < DAILY_QUOTA
          then count_of si k = n \<and>
               fst (enforce_quotas DAILY_QUOTA si k now) = Inr () \<and>
               count_of (snd (enforce_quotas DAILY_QUOTA si k now)) k = n + 1
          else int (count_of si k) = DAILY_QUOTA \<and>
               fst (enforce_quotas DAILY_QUOTA si k now) = Inl QuotaExceeded \<and>
               count_of (snd (enforce_quotas DAILY_QUOTA si k now)) k = count_of si k"
    using cnt by (auto simp: enforce_quotas_no_reset[OF nr] count_of_update)
  show ?thesis using main enforce_quotas_denied_no_increment by blast
qed

theorem quota_exactly_daily_limit_witness:
  "fst (enforce_quotas 2 (quota_run 2 (initial 0) [(''demo-key-123'', 10)]) ''demo-key-123'' 30)
     = Inr () \<and>
   count_of (snd (enforce_quotas 2 (quota_run 2 (initial 0) [(''demo-key-123'', 10)])
     ''demo-key-123'' 30)) ''demo-key-123'' = 2 \<and>
   fst (enforce_quotas 2
     (quota_run 2 (initial 0) [(''demo-key-123'', 10), (''other'', 20), (''demo-key-123'', 30)])
     ''demo-key-123'' 40) = Inl QuotaExceeded \<and>
   count_of (snd (enforce_quotas 2
     (quota_run 2 (initial 0) [(''demo-key-123'', 10), (''other'', 20), (''demo-key-123'', 30)])
     ''demo-key-123'' 40)) ''demo-key-123'' = 2"
proof -
  let ?k = "''demo-key-123''"
  let ?c1 = "[(?k, 10 :: real)]"
  let ?c2 = "[(?k, 10 :: real), (''other'', 20), (?k, 30)]"
  have q: "(0::int) \<le> 2" by simp
  have z: "count_of (initial 0) ?k = 0" by (simp add: count_of_def initial_def dict_get_def)
  have r1: "\<forall>c \<in> set ?c1. snd c - last_quota_reset (initial 0) \<le> 24 * 3600"
    by (simp add: initial_def)
  have r2: "\<forall>c \<in> set ?c2. snd c - last_quota_reset (initial 0) \<le> 24 * 3600"
    by (simp add: initial_def)
  have t1: "(30::real) - last_quota_reset (initial 0) \<le> 24 * 3600" by (simp add: initial_def)
  have t2: "(40::real) - last_quota_reset (initial 0) \<le> 24 * 3600" by (simp add: initial_def)
  have n1: "calls_for ?k ?c1 = 1" by (simp add: calls_for_def)
  have n2: "calls_for ?k ?c2 = 2" by (simp add: calls_for_def)
  have a: "fst (enforce_quotas 2 (quota_run 2 (initial 0) ?c1) ?k 30) = Inr () \<and>
           count_of (snd (enforce_quotas 2 (quota_run 2 (initial 0) ?c1) ?k 30)) ?k = 2"
    using quota_exactly_daily_limit[OF q z r1 t1 refl refl] by (simp add: n1)
  have b: "fst (enforce_quotas 2 (quota_run 2 (initial 0) ?c2) ?k 40) = Inl QuotaExceeded \<and>
           count_of (snd (enforce_quotas 2 (quota_run 2 (initial 0) ?c2) ?k 40)) ?k = 2"
    using quota_exactly_daily_limit[OF q z r2 t2 refl refl] by (simp add: n2)
  show ?thesis using a b by blast
qed

section \<open>Template validator\<close>

lemma take_length_eq_iff: "take (length p) s = p \<longleftrightarrow> (\<exists>r. s = p @ r)"
proof
  assume "take (length p) s = p"
  then have "s = p @ drop (length p) s" by (metis append_take_drop_id)
  then show "\<exists>r. s = p @ r" ..
next
  assume "\<exists>r. s = p @ r"
  then show "take (length p) s = p" by auto
qed

lemma strip_Nil: "strip [] = []"
  by (simp add: strip_def)

lemma blank_not_template: "strip txt = [] \<Longrightarrow> \<not> enforce_template txt"
  by (simp add: enforce_template_def startswith_def APPROVED_PREFIXES_def)

text \<open>
  C7. The template validator accepts a text exactly when the text, trimmed, starts with
  one of the five approved prefixes; \<^verbatim>\<open>Task: do X\<close> passes and \<^verbatim>\<open>do X\<close> fails; a
  request that has passed the earlier gates and whose normalized prompt is not accepted
  fails with TemplateViolation.
\<close>

theorem template_accepts_approved_prefix:
  "(enforce_template txt \<longleftrightarrow>
      (\<exists>p rest. p \<in> set [''Task:'', ''Question:'', ''User:'', ''Input:'', ''Query:''] \<and>
                 strip txt = p @ rest)) \<and>
   enforce_template ''Task: do X'' \<and> \<not> enforce_template ''do X'' \<and>
   (fst (earlier_gates cfg s clk req) = Inr api_key \<and> \<not> enforce_template (normalize_text (prompt q))
      \<longrightarrow> fst (query cfg s clk req q) = Inl TemplateViolation)"
proof -
  have a: "enforce_template txt \<longleftrightarrow>
      (\<exists>p rest. p \<in> set [''Task:'', ''Question:'', ''User:'', ''Input:'', ''Query:''] \<and>
                 strip txt = p @ rest)"
    unfolding enforce_template_def startswith_def APPROVED_PREFIXES_def list_ex_iff
      take_length_eq_iff by blast
  have b: "enforce_template ''Task: do X''"
    by (simp add: enforce_template_def startswith_def APPROVED_PREFIXES_def strip_def isspace_def)
  have c: "\<not> enforce_template ''do X''"
    by (simp add: enforce_template_def startswith_def APPROVED_PREFIXES_def strip_def isspace_def)
  have d: "fst (earlier_gates cfg s clk req) = Inr api_key \<and> \<not> enforce_template (normalize_text (prompt q))
      \<longrightarrow> fst (query cfg s clk req q) = Inl TemplateViolation"
    by (auto simp: query_gates text_gates_def Let_def split: prod.splits sum.splits)
  show ?thesis using a b c d by blast
qed

theorem template_accepts_approved_prefix_witness:
  "fst (earlier_gates demo_config (initial 0) (demo_clock 1) (demo_request ''demo-key-123''))
     = Inr ''demo-key-123'' \<and>
   \<not> enforce_template (normalize_text ''do X'') \<and>
   fst (query demo_config (initial 0) (demo_clock 1) (demo_request ''demo-key-123'')
     \<lparr>prompt = ''do X'', max_new_tokens = None\<rparr>) = Inl TemplateViolation \<and>
   strip ''  Query: x '' = ''Query:'' @ '' x'' \<and> enforce_template ''  Query: x ''"
proof -
  have h1: "fst (earlier_gates demo_config (initial 0) (demo_clock 1) (demo_request ''demo-key-123''))
     = Inr ''demo-key-123''" by code_simp
  have h2: "\<not> enforce_template (normalize_text (prompt \<lparr>prompt = ''do X'', max_new_tokens = None\<rparr>))"
    by code_simp
  have h3: "strip ''  Query: x '' = ''Query:'' @ '' x''" by code_simp
  note t = template_accepts_approved_prefix[of "''  Query: x ''" demo_config "initial 0"
      "demo_clock 1" "demo_request ''demo-key-123''" "''demo-key-123''"
      "\<lparr>prompt = ''do X'', max_new_tokens = None\<rparr>"]
  have r: "fst (query demo_config (initial 0) (demo_clock 1) (demo_request ''demo-key-123'')
     \<lparr>prompt = ''do X'', max_new_tokens = None\<rparr>) = Inl TemplateViolation"
    using t h1 h2 by blast
  have e: "enforce_template ''  Query: x ''"
    using t h3 by (metis list.set_intros(1,2))
  show ?thesis using h1 h2 h3 r e by simp
qed

section \<open>Identity gate\<close>

lemma empty_not_key: "[] \<notin> API_KEYS env"
  by (auto simp: API_KEYS_def)

lemma default_keys: "API_KEYS None = {''demo-key-123''}"
  by (simp add: API_KEYS_def strip_def isspace_def)

text \<open>
  C9, as the code has it. The identity gate trims the presented header value first. It
  fails with Unauthenticated exactly when the header is absent or the trimmed value is
  not in the configured set (which never holds the empty string); otherwise it returns
  the trimmed value. A request that fails here leaves the state as it was.
\<close>

theorem identity_gate_after_trimming:
  "require_api_key (API_KEYS env) req =
     (case headers req ''X-API-Key'' of
        None \<Rightarrow> Inl Unauthenticated
      | Some v \<Rightarrow> if strip v \<in> API_KEYS env then Inr (strip v) else Inl Unauthenticated) \<and>
   (require_api_key (API_KEYS (env_api_keys cfg)) req = Inl e \<longrightarrow>
      e = Unauthenticated \<and> query cfg s clk req q = (Inl Unauthenticated, s))"
proof -
  have a: "require_api_key (API_KEYS env) req =
     (case headers req ''X-API-Key'' of
        None \<Rightarrow> Inl Unauthenticated
      | Some v \<Rightarrow> if strip v \<in> API_KEYS env then Inr (strip v) else Inl Unauthenticated)"
    using empty_not_key[of env]
    by (auto simp: require_api_key_def dict_get_def Let_def Unauthenticated_def strip_Nil
        split: option.splits)
  have b: "require_api_key (API_KEYS (env_api_keys cfg)) req = Inl e \<longrightarrow>
      e = Unauthenticated \<and> query cfg s clk req q = (Inl Unauthenticated, s)"
    by (auto simp: query_def require_api_key_def Let_def Unauthenticated_def split: if_splits)
  show ?thesis using a b by blast
qed

theorem identity_gate_after_trimming_witness:
  "require_api_key (API_KEYS None) (demo_request ''wrong-key'') = Inl Unauthenticated \<and>
   query demo_config (initial 0) (demo_clock 1) (demo_request ''wrong-key'')
     \<lparr>prompt = ''Task: x'', max_new_tokens = None\<rparr> = (Inl Unauthenticated, initial 0) \<and>
   require_api_key (API_KEYS None) (demo_request ''demo-key-123'') = Inr ''demo-key-123''"
proof -
  have h: "require_api_key (API_KEYS (env_api_keys demo_config)) (demo_request ''wrong-key'')
      = Inl Unauthenticated"
    by (simp add: default_keys require_api_key_def demo_request_def dict_get_def strip_def
        isspace_def demo_config_def Unauthenticated_def)
  have k: "strip ''demo-key-123'' = ''demo-key-123''" by (simp add: strip_def isspace_def)
  have a: "query demo_config (initial 0) (demo_clock 1) (demo_request ''wrong-key'')
     \<lparr>prompt = ''Task: x'', max_new_tokens = None\<rparr> = (Inl Unauthenticated, initial 0)"
    using identity_gate_after_trimming[of None "demo_request ''wrong-key''" demo_config
        Unauthenticated "initial 0" "demo_clock 1" "\<lparr>prompt = ''Task: x'', max_new_tokens = None\<rparr>"] h
    by blast
  have b: "require_api_key (API_KEYS None) (demo_request ''demo-key-123'') = Inr ''demo-key-123''"
    using identity_gate_after_trimming[of None "demo_request ''demo-key-123''" demo_config
        Unauthenticated "initial 0" "demo_clock 1" "\<lparr>prompt = ''Task: x'', max_new_tokens = None\<rparr>"]
    by (simp add: demo_request_def k default_keys)
  show ?thesis using h a b by (simp add: demo_config_def)
qed

text \<open>
  Against C9 as stated: a header value with a leading space is not a member of the
  configured set, yet the gate accepts it, and what it returns is not the value presented.
\<close>

theorem identity_gate_counterexample:
  "'' demo-key-123'' \<notin> API_KEYS None \<and>
   require_api_key (API_KEYS None) (demo_request '' demo-key-123'') = Inr ''demo-key-123'' \<and>
   ''demo-key-123'' \<noteq> '' demo-key-123''"
  by (simp add: default_keys require_api_key_def demo_request_def dict_get_def strip_def isspace_def)

section \<open>Blank prompts\<close>

lemma first_match_reason:
  "first_match rs txt = Some r \<Longrightarrow> \<exists>x. r = ''Blocked by rule: /'' @ x"
  by (induction rs) (auto split: if_splits)

lemma sanitize_blank: "strip txt = [] \<Longrightarrow> sanitize_input txt = Some ''Empty prompt.''"
  by (simp add: sanitize_input_def)

lemma sanitize_empty_only_blank:
  "sanitize_input txt = Some ''Empty prompt.'' \<Longrightarrow> strip txt = []"
  by (auto simp: sanitize_input_def strip_def split: if_splits dest: first_match_reason)

lemma earlier_gates_errors:
  "fst (earlier_gates cfg s clk req) = Inl e \<Longrightarrow>
     e \<in> {Unauthenticated, RateLimited_origin, RateLimited_credential, QuotaExceeded}"
  by (auto simp: earlier_gates_def Let_def require_api_key_def enforce_quotas_def
      Unauthenticated_def QuotaExceeded_def split: sum.splits prod.splits if_splits)

text \<open>
  C5, as the code has it. Called on its own, the content filter answers EmptyPrompt for a
  blank text. In the pipeline the template validator runs before it and accepts no blank
  text: a request with a blank prompt (empty or whitespace-only after normalization) that
  has passed the identity, rate and quota gates fails with TemplateViolation, and no
  request at all is answered with EmptyPrompt.
\<close>

theorem blank_prompt_is_template_violation:
  "(strip txt = [] \<longrightarrow> sanitize_input txt = Some ''Empty prompt.'') \<and>
   (strip (normalize_text (prompt q)) = [] \<and> fst (earlier_gates cfg s clk req) = Inr api_key
      \<longrightarrow> fst (query cfg s clk req q) = Inl TemplateViolation) \<and>
   fst (query cfg' s' clk' req' q') \<noteq> Inl (Blocked ''Empty prompt.'')"
proof -
  have b: "strip (normalize_text (prompt q)) = [] \<and> fst (earlier_gates cfg s clk req) = Inr api_key
      \<longrightarrow> fst (query cfg s clk req q) = Inl TemplateViolation"
    by (auto simp: query_gates text_gates_def Let_def blank_not_template split: prod.splits sum.splits)
  have c: "fst (query cfg' s' clk' req' q') \<noteq> Inl (Blocked ''Empty prompt.'')"
  proof
    assume h: "fst (query cfg' s' clk' req' q') = Inl (Blocked ''Empty prompt.'')"
    show False
    proof (cases "earlier_gates cfg' s' clk' req'")
      case (Pair r s3)
      show ?thesis
      proof (cases r)
        case (Inl e)
        then have "e \<in> {Unauthenticated, RateLimited_origin, RateLimited_credential, QuotaExceeded}"
          using earlier_gates_errors[of cfg' s' clk' req' e] Pair by simp
        moreover have "e = Blocked ''Empty prompt.''" using h Pair Inl by (simp add: query_gates)
        ultimately show False
          by (simp add: Blocked_def Unauthenticated_def RateLimited_origin_def
              RateLimited_credential_def QuotaExceeded_def)
      next
        case (Inr k)
        then have t: "fst (text_gates cfg' s3 q') = Inl (Blocked ''Empty prompt.'')"
          using h Pair by (simp add: query_gates)
        then show False
          by (auto simp: text_gates_def Let_def Blocked_def TemplateViolation_def
              DuplicateRejected_def blank_not_template
              split: if_splits prod.splits bool.splits option.splits
              dest!: sanitize_empty_only_blank)
      qed
    qed
  qed
  show ?thesis using sanitize_blank b c by blast
qed

theorem blank_prompt_is_template_violation_witness:
  "strip (normalize_text ''   '') = [] \<and>
   sanitize_input ''   '' = Some ''Empty prompt.'' \<and>
   fst (earlier_gates demo_config (initial 0) (demo_clock 1) (demo_request ''demo-key-123''))
     = Inr ''demo-key-123'' \<and>
   fst (query demo_config (initial 0) (demo_clock 1) (demo_request ''demo-key-123'')
     \<lparr>prompt = ''   '', max_new_tokens = None\<rparr>) = Inl TemplateViolation"
proof -
  have h0: "strip ''   '' = []" by code_simp
  have h1: "strip (normalize_text (prompt \<lparr>prompt = ''   '', max_new_tokens = None\<rparr>)) = []"
    by code_simp
  have h2: "fst (earlier_gates demo_config (initial 0) (demo_clock 1) (demo_request ''demo-key-123''))
     = Inr ''demo-key-123''" by code_simp
  note t = blank_prompt_is_template_violation[of "''   ''"
      "\<lparr>prompt = ''   '', max_new_tokens = None\<rparr>" demo_config "initial 0" "demo_clock 1"
      "demo_request ''demo-key-123''" "''demo-key-123''"]
  show ?thesis using t h0 h1 h2 by simp
qed

text \<open>
  Against C5 as stated: the empty prompt, sent with a valid key to a fresh gateway, passes
  the identity, rate and quota gates and is rejected with TemplateViolation, not with
  EmptyPrompt.
\<close>

theorem blank_prompt_counterexample:
  "strip (normalize_text '''') = [] \<and>
   fst (earlier_gates demo_config (initial 0) (demo_clock 1) (demo_request ''demo-key-123''))
     = Inr ''demo-key-123'' \<and>
   fst (query demo_config (initial 0) (demo_clock 1) (demo_request ''demo-key-123'')
     \<lparr>prompt = '''', max_new_tokens = None\<rparr>) = Inl TemplateViolation \<and>
   TemplateViolation \<noteq> Blocked ''Empty prompt.''"
  by code_simp

section \<open>Content filter\<close>

lemma lower_char_id: "c \<notin> set ''ABCDEFGHIJKLMNOPQRSTUVWXYZ'' \<Longrightarrow> lower_char c = c"
proof -
  let ?U = "''ABCDEFGHIJKLMNOPQRSTUVWXYZ''" and ?L = "''abcdefghijklmnopqrstuvwxyz''"
  assume a: "c \<notin> set ?U"
  have "map fst (zip ?U ?L) = ?U" by (rule map_fst_zip) simp
  then have "fst ` set (zip ?U ?L) = set ?U" by (metis set_map)
  with a have "c \<notin> fst ` set (zip ?U ?L)" by (simp only: not_False_eq_True)
  then have "map_of (zip ?U ?L) c = None" by (simp only: map_of_eq_None_iff not_False_eq_True)
  then show ?thesis by (simp only: lower_char_def option.case)
qed

lemma lower_char_range: "lower_char c = c \<or> lower_char c \<in> set ''abcdefghijklmnopqrstuvwxyz''"
proof (cases "map_of (zip ''ABCDEFGHIJKLMNOPQRSTUVWXYZ'' ''abcdefghijklmnopqrstuvwxyz'') c")
  case None
  then show ?thesis by (simp only: lower_char_def option.case) simp
next
  case (Some l)
  then have "(c, l) \<in> set (zip ''ABCDEFGHIJKLMNOPQRSTUVWXYZ'' ''abcdefghijklmnopqrstuvwxyz'')"
    by (rule map_of_SomeD)
  then have "l \<in> set ''abcdefghijklmnopqrstuvwxyz''" by (rule set_zip_rightD)
  moreover have "lower_char c = l" using Some by (simp only: lower_char_def option.case)
  ultimately show ?thesis by simp
qed

lemma lower_char_space: "lower_char c = CHR '' '' \<Longrightarrow> c = CHR '' ''"
  using lower_char_range[of c] by auto

lemma isspace_not_upper: "isspace c \<Longrightarrow> c \<notin> set ''ABCDEFGHIJKLMNOPQRSTUVWXYZ''"
  by (auto simp: isspace_def)

lemma isspace_lower: "isspace c \<Longrightarrow> lower_char c = c"
  by (rule lower_char_id) (rule isspace_not_upper)

lemma matches_search: "matches r s \<noteq> [] \<Longrightarrow> search r s"
  by (cases s) auto

lemma search_append: "matches r s \<noteq> [] \<Longrightarrow> search r (pre @ s)"
  by (induction pre) (auto simp: matches_search)

lemma matches_lit:
  "map lower_char v = map lower_char w \<Longrightarrow> matches (lit w) (v @ post) = [post]"
  by (induction w arbitrary: v) (auto simp: ci_def)

lemma matches_Seq_I:
  "mid \<in> set (matches a s) \<Longrightarrow> rest \<in> set (matches b mid) \<Longrightarrow> rest \<in> set (matches (Seq a b) s)"
  by auto

lemma matches_space_plus:
  assumes "isspace c"
  shows "rest \<in> set (matches (Rep 1 isspace) (c # rest))"
proof -
  have k: "1 \<le> length (takeWhile isspace (c # rest))" using assms by simp
  have "1 \<in> set [1 ..< Suc (length (takeWhile isspace (c # rest)))]"
    using k by (simp only: set_upt atLeastLessThan_iff) linarith
  then have "drop 1 (c # rest) \<in> (\<lambda>j. drop j (c # rest)) ` set (rev [1 ..< Suc (length (takeWhile isspace (c # rest)))])"
    by (simp only: set_rev) (rule imageI)
  then have "drop 1 (c # rest) \<in> set (matches (Rep 1 isspace) (c # rest))"
    by (simp only: matches.simps set_map)
  then show ?thesis by simp
qed

lemma strip_blank_iff: "strip txt = [] \<longleftrightarrow> (\<forall>c \<in> set txt. isspace c)"
proof
  assume "strip txt = []"
  then have d: "\<forall>x \<in> set (dropWhile isspace txt). isspace x"
    by (simp add: strip_def dropWhile_eq_Nil_conv)
  show "\<forall>c \<in> set txt. isspace c"
  proof (cases "dropWhile isspace txt")
    case Nil
    then show ?thesis by (simp add: dropWhile_eq_Nil_conv)
  next
    case (Cons x xs)
    then have "\<not> isspace x" by (metis hd_dropWhile list.sel(1) list.distinct(1))
    with d Cons show ?thesis by simp
  qed
next
  assume "\<forall>c \<in> set txt. isspace c"
  then have d: "dropWhile isspace txt = []" by (simp only: dropWhile_eq_Nil_conv)
  show "strip txt = []" unfolding strip_def d by simp
qed

lemma find_first_match:
  "first_match rs txt =
     map_option (\<lambda>rx. ''Blocked by rule: /'' @ pattern rx @ ''/'') (find (\<lambda>rx. search (prog rx) txt) rs)"
  by (induction rs) auto

lemma map_eq_append2:
  "map f v = a @ b \<Longrightarrow> \<exists>v1 v2. v = v1 @ v2 \<and> map f v1 = a \<and> map f v2 = b"
  by (metis map_eq_append_conv)

lemma map_eq_append5:
  assumes "map f v = a @ b @ c @ d @ e"
  obtains v1 v2 v3 v4 v5 where "v = v1 @ v2 @ v3 @ v4 @ v5" "map f v1 = a" "map f v2 = b"
      "map f v3 = c" "map f v4 = d" "map f v5 = e"
proof -
  from map_eq_append2[OF assms] obtain v1 r1 where 1: "v = v1 @ r1" "map f v1 = a"
    "map f r1 = b @ c @ d @ e" by blast
  from map_eq_append2[OF 1(3)] obtain v2 r2 where 2: "r1 = v2 @ r2" "map f v2 = b"
    "map f r2 = c @ d @ e" by blast
  from map_eq_append2[OF 2(3)] obtain v3 r3 where 3: "r2 = v3 @ r3" "map f v3 = c"
    "map f r3 = d @ e" by blast
  from map_eq_append2[OF 3(3)] obtain v4 v5 where 4: "r3 = v4 @ v5" "map f v4 = d"
    "map f v5 = e" by blast
  show thesis using that[of v1 v2 v3 v4 v5] 1 2 3 4 by simp
qed

lemma map_eq_single:
  assumes "map f s = [x]"
  obtains c where "s = [c]" "f c = x"
  using assms by auto

lemma lower_phrase_words: "map lower_char ''ignore'' = ''ignore''" "map lower_char ''previous'' = ''previous''"
    "map lower_char ''instructions'' = ''instructions''"
    by code_simp+



lemma phrase_matches:
  assumes "map lower_char v = a @ [CHR '' ''] @ b @ [CHR '' ''] @ c"
    and la: "map lower_char a = a" and lb: "map lower_char b = b" and lc: "map lower_char c = c"
  shows "matches (cat [lit a, Rep 1 isspace, lit b, Rep 1 isspace, lit c]) (v @ post) \<noteq> []"
proof -
  obtain v1 s1 v2 s2 v3 where v: "v = v1 @ s1 @ v2 @ s2 @ v3"
    and l1: "map lower_char v1 = a" and ls1: "map lower_char s1 = [CHR '' '']"
    and l2: "map lower_char v2 = b" and ls2: "map lower_char s2 = [CHR '' '']"
    and l3: "map lower_char v3 = c"
    by (rule map_eq_append5[OF assms(1)])
  obtain c1 where s1: "s1 = [c1]" and c1: "lower_char c1 = CHR '' ''"
    by (rule map_eq_single[OF ls1])
  obtain c2 where s2: "s2 = [c2]" and c2: "lower_char c2 = CHR '' ''"
    by (rule map_eq_single[OF ls2])
  have sp: "isspace (CHR '' '')" by (simp add: isspace_def)
  have sp1: "isspace c1" using lower_char_space[OF c1] sp by simp
  have sp2: "isspace c2" using lower_char_space[OF c2] sp by simp
  have m1: "matches (lit a) (v1 @ c1 # v2 @ c2 # v3 @ post) = [c1 # v2 @ c2 # v3 @ post]"
    by (rule matches_lit) (simp only: l1 la)
  have m2: "v2 @ c2 # v3 @ post \<in> set (matches (Rep 1 isspace) (c1 # v2 @ c2 # v3 @ post))"
    by (rule matches_space_plus[OF sp1])
  have m3: "matches (lit b) (v2 @ c2 # v3 @ post) = [c2 # v3 @ post]"
    by (rule matches_lit) (simp only: l2 lb)
  have m4: "v3 @ post \<in> set (matches (Rep 1 isspace) (c2 # v3 @ post))"
    by (rule matches_space_plus[OF sp2])
  have m5: "matches (lit c) (v3 @ post) = [post]"
    by (rule matches_lit) (simp only: l3 lc)
  have e5: "post \<in> set (matches (cat [lit c]) (v3 @ post))"
    by (simp only: cat.simps matches.simps m5) simp
  have e4: "post \<in> set (matches (cat [Rep 1 isspace, lit c]) (c2 # v3 @ post))"
    unfolding cat.simps(2)[of "Rep 1 isspace"] by (rule matches_Seq_I[OF m4 e5])
  have e3: "post \<in> set (matches (cat [lit b, Rep 1 isspace, lit c]) (v2 @ c2 # v3 @ post))"
    unfolding cat.simps(2)[of "lit b"]
    by (rule matches_Seq_I[OF _ e4]) (simp only: m3 list.set_intros)
  have e2: "post \<in> set (matches (cat [Rep 1 isspace, lit b, Rep 1 isspace, lit c])
      (c1 # v2 @ c2 # v3 @ post))"
    unfolding cat.simps(2)[of "Rep 1 isspace" "[lit b, Rep 1 isspace, lit c]"]
    by (rule matches_Seq_I[OF m2 e3])
  have e1: "post \<in> set (matches (cat [lit a, Rep 1 isspace, lit b, Rep 1 isspace, lit c])
      (v1 @ c1 # v2 @ c2 # v3 @ post))"
    unfolding cat.simps(2)[of "lit a"]
    by (rule matches_Seq_I[OF _ e2]) (simp only: m1 list.set_intros)
  have "v @ post = v1 @ c1 # v2 @ c2 # v3 @ post" by (simp add: v s1 s2)
  with e1 show ?thesis by (metis empty_iff empty_set)
qed

lemma ignore_rule_matches:
  assumes "lower v = ''ignore previous instructions''"
  shows "matches (cat [lit ''ignore'', Rep 1 isspace, lit ''previous'', Rep 1 isspace,
           lit ''instructions'']) (v @ post) \<noteq> []"
proof (rule phrase_matches)
  show "map lower_char v = ''ignore'' @ [CHR '' ''] @ ''previous'' @ [CHR '' ''] @ ''instructions''"
    using assms by (simp add: lower_def)
qed (rule lower_phrase_words)+

lemma RULES_unfold:
  "RULES = \<lparr>pattern = TRIGGER, prog = lit ''++OVERRIDE_POLICY++''\<rparr> #
           \<lparr>pattern = ''ignore'' @ backslash @ ''s+previous'' @ backslash @ ''s+instructions'',
            prog = cat [lit ''ignore'', Rep 1 isspace, lit ''previous'', Rep 1 isspace,
                        lit ''instructions'']\<rparr> # drop 2 RULES"
  by (simp add: RULES_def DISALLOWED_PATTERNS_def compiled_def)

lemma phrase_not_blank:
  assumes "lower v = ''ignore previous instructions''"
  shows "strip (pre @ v @ post) \<noteq> []"
proof -
  from assms obtain c v' where v: "v = c # v'" and c: "lower_char c = CHR ''i''"
    by (cases v) (simp_all add: lower_def)
  have "\<not> isspace c"
  proof
    assume "isspace c"
    then have "isspace (CHR ''i'')" using isspace_lower[of c] c by simp
    then show False by (simp add: isspace_def)
  qed
  then show ?thesis using v by (auto simp: strip_blank_iff)
qed

lemma too_long:
  "strip txt \<noteq> [] \<Longrightarrow> length txt > MAX_PROMPT_LEN \<Longrightarrow>
   sanitize_input txt = Some ''Prompt too long (>5000 chars).''"
  by (auto simp: sanitize_input_def strip_Nil)

text \<open>
  C6, as the code has it. For a text that is not blank and has at most 5000 characters the
  content filter goes through the rules from the top, and the first rule whose pattern is
  found anywhere in the text gives the PolicyViolation. So a text of at most 5000
  characters that contains \<^verbatim>\<open>ignore previous instructions\<close> in any letter case, with any
  text around it in which the earlier rule \<^verbatim>\<open>++OVERRIDE_POLICY++\<close> is not found, fails
  with the PolicyViolation that names the rule \<^verbatim>\<open>ignore\s+previous\s+instructions\<close>.
\<close>

theorem content_filter_first_rule_wins:
  "(strip user_text \<noteq> [] \<and> length user_text \<le> MAX_PROMPT_LEN \<longrightarrow>
      sanitize_input user_text =
        map_option (\<lambda>rx. ''Blocked by rule: /'' @ pattern rx @ ''/'')
          (find (\<lambda>rx. search (prog rx) user_text) RULES)) \<and>
   (lower v = ''ignore previous instructions'' \<and> length (pre @ v @ post) \<le> MAX_PROMPT_LEN \<and>
    \<not> search (prog (RULES ! 0)) (pre @ v @ post) \<longrightarrow>
      sanitize_input (pre @ v @ post) =
        Some (''Blocked by rule: /'' @ ''ignore'' @ backslash @ ''s+previous'' @ backslash @
              ''s+instructions'' @ ''/''))"
proof -
  have a: "strip user_text \<noteq> [] \<and> length user_text \<le> MAX_PROMPT_LEN \<longrightarrow>
      sanitize_input user_text =
        map_option (\<lambda>rx. ''Blocked by rule: /'' @ pattern rx @ ''/'')
          (find (\<lambda>rx. search (prog rx) user_text) RULES)"
    by (auto simp: sanitize_input_def find_first_match strip_Nil)
  have b: "sanitize_input (pre @ v @ post) =
        Some (''Blocked by rule: /'' @ ''ignore'' @ backslash @ ''s+previous'' @ backslash @
              ''s+instructions'' @ ''/'')"
    if l: "lower v = ''ignore previous instructions''"
      and n: "length (pre @ v @ post) \<le> MAX_PROMPT_LEN"
      and t: "\<not> search (prog (RULES ! 0)) (pre @ v @ post)"
  proof -
    let ?txt = "pre @ v @ post"
    have nb: "strip ?txt \<noteq> []" by (rule phrase_not_blank[OF l])
    then have ne: "?txt \<noteq> []" using strip_Nil by metis
    define r0 where "r0 = \<lparr>pattern = TRIGGER, prog = lit ''++OVERRIDE_POLICY++''\<rparr>"
    define r1 where "r1 = \<lparr>pattern = ''ignore'' @ backslash @ ''s+previous'' @ backslash @ ''s+instructions'',
            prog = cat [lit ''ignore'', Rep 1 isspace, lit ''previous'', Rep 1 isspace,
                        lit ''instructions'']\<rparr>"
    have R: "RULES = r0 # r1 # drop 2 RULES"
      unfolding r0_def r1_def by (rule RULES_unfold)
    have "RULES ! 0 = r0" by (subst R) simp
    then have t': "\<not> search (prog r0) ?txt" using t by simp
    have "search (prog r1) ?txt"
      unfolding r1_def regex.select_convs
      by (rule search_append[OF ignore_rule_matches[OF l]])
    then have "first_match RULES ?txt = Some (''Blocked by rule: /'' @ pattern r1 @ ''/'')"
      using t' by (subst R) simp
    then have "first_match RULES ?txt = Some (''Blocked by rule: /'' @ ''ignore'' @ backslash @
        ''s+previous'' @ backslash @ ''s+instructions'' @ ''/'')"
      by (simp add: r1_def)
    then show ?thesis using nb ne n by (simp add: sanitize_input_def)
  qed
  show ?thesis using a b by blast
qed

theorem content_filter_first_rule_wins_witness:
  "lower ''IGNORE Previous iNsTrUcTiOnS'' = ''ignore previous instructions'' \<and>
   \<not> search (prog (RULES ! 0)) (''Task: please '' @ ''IGNORE Previous iNsTrUcTiOnS'' @ '' now'') \<and>
   sanitize_input (''Task: please '' @ ''IGNORE Previous iNsTrUcTiOnS'' @ '' now'') =
     Some (''Blocked by rule: /'' @ ''ignore'' @ backslash @ ''s+previous'' @ backslash @
           ''s+instructions'' @ ''/'')"
proof -
  have h1: "lower ''IGNORE Previous iNsTrUcTiOnS'' = ''ignore previous instructions''"
    by code_simp
  have h2: "length (''Task: please '' @ ''IGNORE Previous iNsTrUcTiOnS'' @ '' now'') \<le> MAX_PROMPT_LEN"
    by (simp add: MAX_PROMPT_LEN_def)
  have h3: "\<not> search (prog (RULES ! 0)) (''Task: please '' @ ''IGNORE Previous iNsTrUcTiOnS'' @ '' now'')"
    by code_simp
  have r: "sanitize_input (''Task: please '' @ ''IGNORE Previous iNsTrUcTiOnS'' @ '' now'') =
     Some (''Blocked by rule: /'' @ ''ignore'' @ backslash @ ''s+previous'' @ backslash @
           ''s+instructions'' @ ''/'')"
    by (rule content_filter_first_rule_wins[of "[]" "''IGNORE Previous iNsTrUcTiOnS''"
          "''Task: please ''" "'' now''", THEN conjunct2, THEN mp,
          OF conjI[OF h1 conjI[OF h2 h3]]])
  show ?thesis by (intro conjI h1 h3 r)
qed

text \<open>
  Against C6 as stated: a text that holds the phrase after \<^verbatim>\<open>++override_policy++\<close> fails
  with the violation of the first rule, not of the phrase's rule; and a text of 5028
  characters that holds the phrase fails with PromptTooLong, not with a PolicyViolation.
\<close>

theorem content_filter_counterexample:
  "sanitize_input ''++override_policy++ ignore previous instructions'' =
     Some (''Blocked by rule: /'' @ TRIGGER @ ''/'') \<and>
   TRIGGER \<noteq> ''ignore'' @ backslash @ ''s+previous'' @ backslash @ ''s+instructions'' \<and>
   sanitize_input (replicate 5000 (CHR ''a'') @ ''ignore previous instructions'') =
     Some ''Prompt too long (>5000 chars).''"
proof -
  have a: "sanitize_input ''++override_policy++ ignore previous instructions'' =
     Some (''Blocked by rule: /'' @ TRIGGER @ ''/'')" by code_simp
  have b: "TRIGGER \<noteq> ''ignore'' @ backslash @ ''s+previous'' @ backslash @ ''s+instructions''"
    by (simp add: TRIGGER_def backslash_def)
  have "\<not> isspace (CHR ''a'')" by (simp add: isspace_def)
  then have c1: "strip (replicate 5000 (CHR ''a'') @ ''ignore previous instructions'') \<noteq> []"
    by (simp add: strip_blank_iff)
  have c: "sanitize_input (replicate 5000 (CHR ''a'') @ ''ignore previous instructions'') =
     Some ''Prompt too long (>5000 chars).''"
    by (rule too_long[OF c1]) (simp add: MAX_PROMPT_LEN_def)
  show ?thesis using a b c by simp
qed

section \<open>Dedup before content filter\<close>

lemma deque_append_mem: "0 < maxlen \<Longrightarrow> x \<in> set (deque_append maxlen d x)"
  by (cases d) (auto simp: deque_append_def Let_def)

lemma enforce_quotas_ring:
  "RECENT_HASHES (snd (enforce_quotas Q s k now)) = RECENT_HASHES s"
  by (simp add: enforce_quotas_def reset_daily_quotas_if_needed_def Let_def)

lemma earlier_gates_ring:
  "RECENT_HASHES (snd (earlier_gates cfg s clk req)) = RECENT_HASHES s"
proof -
  have q: "RECENT_HASHES s3 = RECENT_HASHES s2" if "enforce_quotas Q s2 k now = (r, s3)"
    for Q s2 k now r s3
    using enforce_quotas_ring[of Q s2 k now] that by simp
  show ?thesis
    by (auto simp: earlier_gates_def Let_def split: sum.splits prod.splits dest!: q)
qed

lemma earlier_gates_authenticated:
  assumes "require_api_key (API_KEYS (env_api_keys cfg)) req = Inr k"
  shows "fst (earlier_gates cfg s clk req) \<in>
    {Inl RateLimited_origin, Inl RateLimited_credential, Inl QuotaExceeded, Inr k}"
  using assms
  by (auto simp: earlier_gates_def Let_def enforce_quotas_def QuotaExceeded_def
      split: sum.splits prod.splits if_splits)

lemma earlier_gates_Inr:
  "fst (earlier_gates cfg s clk req) = Inr k \<Longrightarrow>
   require_api_key (API_KEYS (env_api_keys cfg)) req = Inr k"
  by (auto simp: earlier_gates_def Let_def split: sum.splits prod.splits if_splits)

lemma Blocked_distinct:
  "Blocked r \<noteq> Unauthenticated" "Blocked r \<noteq> RateLimited_origin"
  "Blocked r \<noteq> RateLimited_credential" "Blocked r \<noteq> QuotaExceeded"
  "Blocked r \<noteq> TemplateViolation" "Blocked r \<noteq> DuplicateRejected"
  by (simp_all add: Blocked_def Unauthenticated_def RateLimited_origin_def
      RateLimited_credential_def QuotaExceeded_def TemplateViolation_def DuplicateRejected_def)

lemma text_gates_blocked:
  assumes "text_gates cfg s3 q = (Inl (Blocked reason), s')"
  shows "enforce_template (normalize_text (prompt q)) \<and>
         sanitize_input (normalize_text (prompt q)) = Some reason \<and>
         hash_fn cfg (lower (strip (normalize_text (prompt q)))) \<in> set (RECENT_HASHES s')"
proof -
  let ?p = "normalize_text (prompt q)"
  have t: "enforce_template ?p"
    using assms Blocked_distinct(5)[of reason]
    by (auto simp: text_gates_def Let_def split: if_splits)
  obtain d s4 where nd: "near_duplicate (hash_fn cfg) s3 ?p = (d, s4)" by (cases "near_duplicate (hash_fn cfg) s3 ?p")
  have d: "\<not> d"
    using assms t nd Blocked_distinct(6)[of reason]
    by (auto simp: text_gates_def Let_def split: if_splits)
  have s4: "s4 = s'" and r: "sanitize_input ?p = Some reason"
    using assms t nd d
    by (auto simp: text_gates_def Let_def Blocked_def split: if_splits option.splits)
  have "hash_fn cfg (lower (strip ?p)) \<in> set (RECENT_HASHES s4)"
    using nd d deque_append_mem[of RECENT_HASHES_maxlen]
    by (auto simp: near_duplicate_def Let_def RECENT_HASHES_maxlen_def split: if_splits)
  then show ?thesis using t r s4 by simp
qed

lemma text_gates_duplicate:
  assumes "enforce_template (normalize_text (prompt q))"
    and "hash_fn cfg (lower (strip (normalize_text (prompt q)))) \<in> set (RECENT_HASHES s3)"
  shows "text_gates cfg s3 q = (Inl DuplicateRejected, s3)"
  using assms by (simp add: text_gates_def Let_def near_duplicate_def)

text \<open>
  C10. When a request is rejected by the content filter, the fingerprint of its prompt is
  in the ring afterwards, since the dedup check ran and inserted it before the filter.
  The same request sent again is then never answered by the content filter: it fails at
  a rate limiter or the quota, or else as a duplicate; it fails as a duplicate whenever
  the identity, rate and quota gates let it through.
\<close>

theorem filtered_prompt_resubmitted_is_duplicate:
  assumes "query cfg s clk req q = (Inl (Blocked reason), s')"
  shows "hash_fn cfg (lower (strip (normalize_text (prompt q)))) \<in> set (RECENT_HASHES s') \<and>
         fst (query cfg s' clk' req q) \<in>
           {Inl RateLimited_origin, Inl RateLimited_credential, Inl QuotaExceeded,
            Inl DuplicateRejected} \<and>
         (fst (earlier_gates cfg s' clk' req) = Inr k \<longrightarrow>
            fst (query cfg s' clk' req q) = Inl DuplicateRejected)"
proof -
  obtain r s3 where eg: "earlier_gates cfg s clk req = (r, s3)" by (cases "earlier_gates cfg s clk req")
  have "\<exists>k0. r = Inr k0"
  proof (cases r)
    case (Inl e)
    then have "e = Blocked reason" using assms eg by (simp add: query_gates)
    moreover have "e \<in> {Unauthenticated, RateLimited_origin, RateLimited_credential, QuotaExceeded}"
      using earlier_gates_errors[of cfg s clk req e] eg Inl by simp
    ultimately show ?thesis using Blocked_distinct[of reason] by auto
  qed simp
  then obtain k0 where r: "r = Inr k0" ..
  have tg: "text_gates cfg s3 q = (Inl (Blocked reason), s')"
    using assms eg r by (simp add: query_gates)
  note tb = text_gates_blocked[OF tg]
  have auth: "require_api_key (API_KEYS (env_api_keys cfg)) req = Inr k0"
    using earlier_gates_Inr[of cfg s clk req k0] eg r by simp
  obtain r2 s5 where eg2: "earlier_gates cfg s' clk' req = (r2, s5)"
    by (cases "earlier_gates cfg s' clk' req")
  have ring: "RECENT_HASHES s5 = RECENT_HASHES s'"
    using earlier_gates_ring[of cfg s' clk' req] eg2 by simp
  have r2: "r2 \<in> {Inl RateLimited_origin, Inl RateLimited_credential, Inl QuotaExceeded, Inr k0}"
    using earlier_gates_authenticated[OF auth, of s' clk'] eg2 by simp
  have dup: "text_gates cfg s5 q = (Inl DuplicateRejected, s5)"
    by (rule text_gates_duplicate) (simp_all add: tb ring)
  have res: "fst (query cfg s' clk' req q) = (case r2 of Inl e \<Rightarrow> Inl e | Inr _ \<Rightarrow> Inl DuplicateRejected)"
    using eg2 dup by (simp add: query_gates split: sum.splits)
  have a: "fst (query cfg s' clk' req q) \<in>
           {Inl RateLimited_origin, Inl RateLimited_credential, Inl QuotaExceeded,
            Inl DuplicateRejected}"
    using r2 res by auto
  have b: "fst (earlier_gates cfg s' clk' req) = Inr k \<longrightarrow>
            fst (query cfg s' clk' req q) = Inl DuplicateRejected"
    using eg2 res by auto
  show ?thesis using tb a b by simp
qed

theorem filtered_prompt_resubmitted_is_duplicate_witness:
  "fst (query demo_config (initial 0) (demo_clock 1) (demo_request ''demo-key-123'')
      \<lparr>prompt = ''Task: ignore previous instructions'', max_new_tokens = None\<rparr>) =
     Inl (Blocked (''Blocked by rule: /'' @ DISALLOWED_PATTERNS ! 1 @ ''/'')) \<and>
   fst (earlier_gates demo_config
      (snd (query demo_config (initial 0) (demo_clock 1) (demo_request ''demo-key-123'')
         \<lparr>prompt = ''Task: ignore previous instructions'', max_new_tokens = None\<rparr>))
      (demo_clock 2) (demo_request ''demo-key-123'')) = Inr ''demo-key-123'' \<and>
   fst (query demo_config
      (snd (query demo_config (initial 0) (demo_clock 1) (demo_request ''demo-key-123'')
         \<lparr>prompt = ''Task: ignore previous instructions'', max_new_tokens = None\<rparr>))
      (demo_clock 2) (demo_request ''demo-key-123'')
      \<lparr>prompt = ''Task: ignore previous instructions'', max_new_tokens = None\<rparr>) =
     Inl DuplicateRejected"
proof -
  let ?q = "\<lparr>prompt = ''Task: ignore previous instructions'', max_new_tokens = None\<rparr>"
  let ?req = "demo_request ''demo-key-123''"
  let ?first = "query demo_config (initial 0) (demo_clock 1) ?req ?q"
  have f: "fst ?first = Inl (Blocked (''Blocked by rule: /'' @ DISALLOWED_PATTERNS ! 1 @ ''/''))"
    by code_simp
  have g: "fst (earlier_gates demo_config (snd ?first) (demo_clock 2) ?req) = Inr ''demo-key-123''"
    by code_simp
  have h: "?first = (Inl (Blocked (''Blocked by rule: /'' @ DISALLOWED_PATTERNS ! 1 @ ''/'')), snd ?first)"
    using f by (metis prod.collapse)
  have d: "fst (query demo_config (snd ?first) (demo_clock 2) ?req ?q) = Inl DuplicateRejected"
    by (rule filtered_prompt_resubmitted_is_duplicate[OF h, THEN conjunct2, THEN conjunct2, THEN mp, OF g])
  show ?thesis by (intro conjI f g d)
qed

section \<open>Near-duplicate filter\<close>

lemma near_duplicate_allowed:
  assumes "near_duplicate H s t = (False, s1)"
  shows "H (lower (strip t)) \<notin> set (RECENT_HASHES s)"
    and "RECENT_HASHES s1 = deque_append RECENT_HASHES_maxlen (RECENT_HASHES s) (H (lower (strip t)))"
  using assms by (auto simp: near_duplicate_def Let_def split: if_splits)

lemma near_duplicate_rejected:
  assumes "near_duplicate H s t = (True, s1)"
  shows "s1 = s"
  using assms by (auto simp: near_duplicate_def Let_def split: if_splits)

lemma near_duplicate_present:
  "H (lower (strip t)) \<in> set (RECENT_HASHES s) \<Longrightarrow> near_duplicate H s t = (True, s)"
  by (simp add: near_duplicate_def)

lemma near_duplicate_absent:
  "H (lower (strip t)) \<notin> set (RECENT_HASHES s) \<Longrightarrow> fst (near_duplicate H s t) = False"
  by (simp add: near_duplicate_def)

lemma first_insert:
  assumes "p \<notin> set r" and "length r \<le> RECENT_HASHES_maxlen"
  shows "held_with_newer p 0 (deque_append RECENT_HASHES_maxlen r p)"
proof (cases "length r = RECENT_HASHES_maxlen")
  case True
  then have ne: "r \<noteq> []" by (auto simp: RECENT_HASHES_maxlen_def)
  then have d: "deque_append RECENT_HASHES_maxlen r p = tl r @ [p]"
    using True by (simp add: deque_append_def)
  have "p \<notin> set (tl r)" using assms(1) ne by (metis list.set_sel(2))
  moreover have "length (tl r @ [p]) \<le> RECENT_HASHES_maxlen" using True ne by (cases r) auto
  ultimately show ?thesis
    unfolding held_with_newer_def d
    by - (rule exI[of _ "tl r"], rule exI[of _ "[]"], simp)
next
  case False
  then have d: "deque_append RECENT_HASHES_maxlen r p = r @ [p]"
    using assms(2) by (simp add: deque_append_def)
  show ?thesis
    unfolding held_with_newer_def d using assms False
    by - (rule exI[of _ r], rule exI[of _ "[]"], simp)
qed

lemma append_step:
  assumes "held_with_newer p j ring" and "h \<notin> set ring" and "Suc j < RECENT_HASHES_maxlen"
  shows "held_with_newer p (Suc j) (deque_append RECENT_HASHES_maxlen ring h)"
proof -
  from assms(1) obtain a b where r: "ring = a @ p # b" and pa: "p \<notin> set a" and pb: "p \<notin> set b"
    and lb: "length b = j" and len: "length ring \<le> RECENT_HASHES_maxlen"
    unfolding held_with_newer_def by blast
  have hp: "h \<noteq> p" using assms(2) r by auto
  show ?thesis
  proof (cases "length ring = RECENT_HASHES_maxlen")
    case True
    then have ne: "a \<noteq> []" using r lb assms(3) by auto
    have d: "deque_append RECENT_HASHES_maxlen ring h = tl a @ p # (b @ [h])"
      using True ne r by (simp add: deque_append_def)
    have "p \<notin> set (tl a)" using pa ne by (metis list.set_sel(2))
    moreover have "length (tl a @ p # (b @ [h])) \<le> RECENT_HASHES_maxlen"
      using True r ne by (cases a) auto
    ultimately show ?thesis
      unfolding held_with_newer_def d using pb hp lb
      by - (rule exI[of _ "tl a"], rule exI[of _ "b @ [h]"], simp)
  next
    case False
    then have d: "deque_append RECENT_HASHES_maxlen ring h = a @ p # (b @ [h])"
      using len r by (simp add: deque_append_def)
    show ?thesis
      unfolding held_with_newer_def d using pa pb hp lb False len r
      by - (rule exI[of _ a], rule exI[of _ "b @ [h]"], simp)
  qed
qed

lemma append_evict:
  assumes "held_with_newer p j ring" and "h \<notin> set ring" and "Suc j = RECENT_HASHES_maxlen"
  shows "p \<notin> set (deque_append RECENT_HASHES_maxlen ring h)"
proof -
  from assms(1) obtain a b where r: "ring = a @ p # b" and pa: "p \<notin> set a" and pb: "p \<notin> set b"
    and lb: "length b = j" and len: "length ring \<le> RECENT_HASHES_maxlen"
    unfolding held_with_newer_def by blast
  have hp: "h \<noteq> p" using assms(2) r by auto
  have a: "a = []" using r lb len assms(3) by auto
  have "deque_append RECENT_HASHES_maxlen ring h = b @ [h]"
    using r a lb assms(3) by (simp add: deque_append_def)
  then show ?thesis using pb hp by simp
qed

lemma held_bound: "held_with_newer p j ring \<Longrightarrow> j < RECENT_HASHES_maxlen"
  by (auto simp: held_with_newer_def)

lemma held_mem: "held_with_newer p j ring \<Longrightarrow> p \<in> set ring"
  by (auto simp: held_with_newer_def)

lemma run_evicts:
  "dedup_checks H s txts = (ds, s') \<Longrightarrow> True \<notin> set ds \<Longrightarrow>
   held_with_newer p j (RECENT_HASHES s) \<Longrightarrow> j + length txts = RECENT_HASHES_maxlen \<Longrightarrow>
   p \<notin> set (RECENT_HASHES s')"
proof (induction txts arbitrary: s j ds s')
  case Nil
  then show ?case using held_bound[of p j "RECENT_HASHES s"] by simp
next
  case (Cons t ts)
  obtain d s1 where nd: "near_duplicate H s t = (d, s1)" by (cases "near_duplicate H s t")
  obtain ds1 s2 where rest: "dedup_checks H s1 ts = (ds1, s2)" by (cases "dedup_checks H s1 ts")
  have ds: "ds = d # ds1" and s': "s' = s2" using Cons.prems(1) nd rest by simp_all
  have d: "\<not> d" using Cons.prems(2) ds by auto
  note al = near_duplicate_allowed[OF nd[unfolded eq_False[THEN iffD2, OF d]]]
  show ?case
  proof (cases "Suc j < RECENT_HASHES_maxlen")
    case True
    have h: "held_with_newer p (Suc j) (RECENT_HASHES s1)"
      unfolding al(2) by (rule append_step[OF Cons.prems(3) al(1) True])
    have nd1: "True \<notin> set ds1" using Cons.prems(2) ds by simp
    have len: "Suc j + length ts = RECENT_HASHES_maxlen" using Cons.prems(4) by simp
    have "p \<notin> set (RECENT_HASHES s2)" by (rule Cons.IH[OF rest nd1 h len])
    then show ?thesis using s' by simp
  next
    case False
    have l4: "j + Suc (length ts) = RECENT_HASHES_maxlen" using Cons.prems(4) by simp
    have "length ts = 0" using False l4 by arith
    then have ts: "ts = []" by simp
    have e: "Suc j = RECENT_HASHES_maxlen" using l4 ts by simp
    have "p \<notin> set (RECENT_HASHES s1)"
      unfolding al(2) by (rule append_evict[OF Cons.prems(3) al(1) e])
    then show ?thesis using s' rest ts by simp
  qed
qed

lemma run_keeps:
  "dedup_checks H s txts = (ds, s') \<Longrightarrow> held_with_newer p j (RECENT_HASHES s) \<Longrightarrow>
   j + length txts < RECENT_HASHES_maxlen \<Longrightarrow> p \<in> set (RECENT_HASHES s')"
proof (induction txts arbitrary: s j ds s')
  case Nil
  then show ?case using held_mem by auto
next
  case (Cons t ts)
  obtain d s1 where nd: "near_duplicate H s t = (d, s1)" by (cases "near_duplicate H s t")
  obtain ds1 s2 where rest: "dedup_checks H s1 ts = (ds1, s2)" by (cases "dedup_checks H s1 ts")
  have s': "s' = s2" using Cons.prems(1) nd rest by simp
  show ?case
  proof (cases d)
    case True
    then have "near_duplicate H s t = (True, s1)" using nd by simp
    then have "s1 = s" by (rule near_duplicate_rejected)
    then have h0: "held_with_newer p j (RECENT_HASHES s1)" using Cons.prems(2) by simp
    have len: "j + length ts < RECENT_HASHES_maxlen" using Cons.prems(3) by simp
    show ?thesis unfolding s' by (rule Cons.IH[OF rest h0 len])
  next
    case False
    note al = near_duplicate_allowed[OF nd[unfolded eq_False[THEN iffD2, OF False]]]
    have "Suc j < RECENT_HASHES_maxlen" using Cons.prems(3) by simp
    then have h1: "held_with_newer p (Suc j) (RECENT_HASHES s1)"
      unfolding al(2) by (rule append_step[OF Cons.prems(2) al(1)])
    have len: "Suc j + length ts < RECENT_HASHES_maxlen" using Cons.prems(3) by simp
    show ?thesis unfolding s' by (rule Cons.IH[OF rest h1 len])
  qed
qed

lemma deque_append_subset: "set (deque_append maxlen r h) \<subseteq> insert h (set r)"
proof (cases "r @ [h]")
  case Nil
  then show ?thesis by simp
next
  case (Cons x xs)
  then have "set (tl (r @ [h])) \<subseteq> set (r @ [h])" by (simp add: subset_iff)
  then show ?thesis by (auto simp: deque_append_def Let_def)
qed

lemma all_allowed:
  "distinct (map (\<lambda>t. H (lower (strip t))) txts) \<Longrightarrow>
   (\<forall>t \<in> set txts. H (lower (strip t)) \<notin> set (RECENT_HASHES s)) \<Longrightarrow>
   True \<notin> set (fst (dedup_checks H s txts))"
proof (induction txts arbitrary: s)
  case Nil
  then show ?case by simp
next
  case (Cons t ts)
  let ?h = "H (lower (strip t))"
  let ?s1 = "s\<lparr>RECENT_HASHES := deque_append RECENT_HASHES_maxlen (RECENT_HASHES s) ?h\<rparr>"
  have nd: "near_duplicate H s t = (False, ?s1)"
    using Cons.prems(2) by (simp add: near_duplicate_def)
  have "\<forall>u \<in> set ts. H (lower (strip u)) \<notin> set (RECENT_HASHES ?s1)"
  proof
    fix u assume u: "u \<in> set ts"
    have "?h \<notin> (\<lambda>t. H (lower (strip t))) ` set ts" using Cons.prems(1) by simp
    moreover have "H (lower (strip u)) \<in> (\<lambda>t. H (lower (strip t))) ` set ts"
      using u by (rule imageI)
    ultimately have "H (lower (strip u)) \<noteq> ?h" by metis
    moreover have "H (lower (strip u)) \<notin> set (RECENT_HASHES s)" using Cons.prems(2) u by simp
    ultimately show "H (lower (strip u)) \<notin> set (RECENT_HASHES ?s1)"
      using deque_append_subset[of RECENT_HASHES_maxlen "RECENT_HASHES s" ?h] by auto
  qed
  moreover have "distinct (map (\<lambda>t. H (lower (strip t))) ts)" using Cons.prems(1) by simp
  ultimately have "True \<notin> set (fst (dedup_checks H ?s1 ts))" by (rule Cons.IH[rotated])
  then show ?case using nd by (simp add: split_beta)
qed

lemma x_plain: "\<not> isspace (CHR ''x'')" "lower_char (CHR ''x'') = CHR ''x''"
  by (simp add: isspace_def) (rule lower_char_id, simp)

lemma strip_id:
  assumes "s \<noteq> []" and "\<not> isspace (hd s)" and "\<not> isspace (last s)"
  shows "strip s = s"
proof -
  have 1: "dropWhile isspace s = s" using assms(2) by (simp add: dropWhile_eq_self_iff)
  have "hd (rev s) = last s" using assms(1) by (simp add: hd_rev)
  then have 2: "dropWhile isspace (rev s) = rev s" using assms(3) by (simp add: dropWhile_eq_self_iff)
  show ?thesis unfolding strip_def 1 2 by simp
qed

lemma lower_task: "map lower_char ''Task: '' = ''task: ''"
  by code_simp

lemma T_plain: "\<not> isspace (CHR ''T'')"
  by (simp add: isspace_def)

lemma fresh_fingerprint:
  "lower (strip (''Task: '' @ replicate (Suc i) (CHR ''x''))) = ''task: '' @ replicate (Suc i) (CHR ''x'')"
proof -
  let ?s = "''Task: '' @ replicate (Suc i) (CHR ''x'')"
  have l: "last ?s = CHR ''x''" by simp
  have h: "hd ?s = CHR ''T''" by simp
  have "strip ?s = ?s"
    by (rule strip_id) (simp, simp only: h T_plain not_False_eq_True, simp only: l x_plain not_False_eq_True)
  then show ?thesis
    unfolding lower_def by (simp only: map_append map_replicate x_plain(2) lower_task)
qed

lemma fresh_fingerprints:
  "map (\<lambda>t. id (lower (strip t))) (fresh_prompts n) =
   map (\<lambda>i. ''task: '' @ replicate (Suc i) (CHR ''x'')) [0 ..< n]"
  unfolding fresh_prompts_def map_map o_def id_apply fresh_fingerprint by (rule refl)

lemma distinct_task_x:
  "distinct (map (\<lambda>i. pre @ replicate (Suc i) (CHR ''x'')) [0 ..< n])"
proof -
  have "inj_on (\<lambda>i. pre @ replicate (Suc i) (CHR ''x'')) (set [0 ..< n])"
  proof (rule inj_onI)
    fix i j assume "pre @ replicate (Suc i) (CHR ''x'') = pre @ replicate (Suc j) (CHR ''x'')"
    then have "length (replicate (Suc i) (CHR ''x'')) = length (replicate (Suc j) (CHR ''x''))"
      by simp
    then show "i = j" by simp
  qed
  then show ?thesis by (simp add: distinct_map)
qed

lemma fresh_sixth_char: "t \<in> set (fresh_prompts n) \<Longrightarrow> t ! 6 = CHR ''x''"
  by (auto simp: fresh_prompts_def nth_append)

lemma distinct_fresh: "distinct (fresh_prompts n)"
  unfolding fresh_prompts_def by (rule distinct_task_x)

lemma length_dedup_checks: "length (fst (dedup_checks H s txts)) = length txts"
  by (induction txts arbitrary: s) (auto simp: split_beta)

text \<open>
  C2, as the code has it. A prompt whose fingerprint is not in the ring (a ring within its
  capacity of 4096) is allowed by the dedup check, and checked again at once it is
  rejected, with the whole state, the ring included, left as it was: nothing is inserted
  again. After 4096 further checks, each of which allowed its prompt and so inserted a
  fingerprint, the original fingerprint is no longer in the ring and the prompt is
  allowed again.
\<close>

theorem dedup_rejects_then_forgets:
  assumes "blake2b (lower (strip txt)) \<notin> set (RECENT_HASHES s)"
    and "length (RECENT_HASHES s) \<le> 4096"
    and "s1 = snd (near_duplicate blake2b s txt)"
    and "dedup_checks blake2b s1 txts = (ds, s3)"
    and "length txts = 4096"
    and "True \<notin> set ds"
  shows "near_duplicate blake2b s txt = (False, s1) \<and>
         near_duplicate blake2b s1 txt = (True, s1) \<and>
         blake2b (lower (strip txt)) \<notin> set (RECENT_HASHES s3) \<and>
         fst (near_duplicate blake2b s3 txt) = False"
proof -
  let ?p = "blake2b (lower (strip txt))"
  have first: "near_duplicate blake2b s txt = (False, s1)"
    using assms(1,3) by (simp add: near_duplicate_def)
  have ring1: "RECENT_HASHES s1 = deque_append RECENT_HASHES_maxlen (RECENT_HASHES s) ?p"
    by (rule near_duplicate_allowed(2)[OF first])
  have h: "held_with_newer ?p 0 (RECENT_HASHES s1)"
    unfolding ring1 using assms(1,2) by (intro first_insert) (simp_all add: RECENT_HASHES_maxlen_def)
  have second: "near_duplicate blake2b s1 txt = (True, s1)"
    using held_mem[OF h] by (rule near_duplicate_present)
  have gone: "?p \<notin> set (RECENT_HASHES s3)"
    using run_evicts[OF assms(4,6) h] assms(5) by (simp add: RECENT_HASHES_maxlen_def)
  have again: "fst (near_duplicate blake2b s3 txt) = False"
    using gone by (rule near_duplicate_absent)
  show ?thesis using first second gone again by simp
qed

lemma ring_after_p:
  "RECENT_HASHES (snd (near_duplicate id (initial 0) ''Task: p'')) = [''task: p'']"
  by code_simp

theorem dedup_rejects_then_forgets_witness:
  "near_duplicate id (initial 0) ''Task: p'' =
     (False, snd (near_duplicate id (initial 0) ''Task: p'')) \<and>
   near_duplicate id (snd (near_duplicate id (initial 0) ''Task: p'')) ''Task: p'' =
     (True, snd (near_duplicate id (initial 0) ''Task: p'')) \<and>
   length (fresh_prompts 4096) = 4096 \<and>
   True \<notin> set (fst (dedup_checks id (snd (near_duplicate id (initial 0) ''Task: p''))
                   (fresh_prompts 4096))) \<and>
   fst (near_duplicate id
     (snd (dedup_checks id (snd (near_duplicate id (initial 0) ''Task: p'')) (fresh_prompts 4096)))
     ''Task: p'') = False"
proof -
  let ?s1 = "snd (near_duplicate id (initial 0) ''Task: p'')"
  let ?run = "dedup_checks id ?s1 (fresh_prompts 4096)"
  have h1: "id (lower (strip ''Task: p'')) \<notin> set (RECENT_HASHES (initial 0))"
    by (simp add: initial_def)
  have h2: "length (RECENT_HASHES (initial 0)) \<le> 4096" by (simp add: initial_def)
  have h4: "?run = (fst ?run, snd ?run)" by simp
  have h5: "length (fresh_prompts 4096) = 4096" by (simp add: fresh_prompts_def)
  have nf: "\<forall>t \<in> set (fresh_prompts 4096). id (lower (strip t)) \<notin> set (RECENT_HASHES ?s1)"
  proof
    fix t assume t: "t \<in> set (fresh_prompts 4096)"
    then obtain i where "t = ''Task: '' @ replicate (Suc i) (CHR ''x'')"
      by (auto simp: fresh_prompts_def)
    then have "id (lower (strip t)) = ''task: '' @ CHR ''x'' # replicate i (CHR ''x'')"
      using fresh_fingerprint[of i] by simp
    then show "id (lower (strip t)) \<notin> set (RECENT_HASHES ?s1)"
      by (simp add: ring_after_p)
  qed
  have d: "distinct (map (\<lambda>t. id (lower (strip t))) (fresh_prompts 4096))"
    by (simp only: fresh_fingerprints distinct_task_x)
  have h6: "True \<notin> set (fst ?run)"
    by (rule all_allowed[OF d nf])
  note t = dedup_rejects_then_forgets[OF h1 h2 refl h4 h5 h6]
  show ?thesis using t h5 h6 by simp
qed

lemma ring_after_q_p:
  "RECENT_HASHES (snd (near_duplicate id (snd (near_duplicate id (initial 0) ''Task: q'')) ''Task: p''))
     = [''task: q'', ''task: p'']"
  by code_simp

text \<open>
  Against C2 as stated: on a gateway that has already checked \<^verbatim>\<open>Task: q\<close>, the prompt
  \<^verbatim>\<open>Task: p\<close> is allowed and then rejected; then 4096 other prompts, all distinct, are
  checked, the first of them \<^verbatim>\<open>Task: q\<close>, which is rejected and inserts nothing. Only
  4095 fingerprints have been inserted, so that of \<^verbatim>\<open>Task: p\<close> is still in the ring and
  the prompt is rejected again.
\<close>

theorem dedup_counterexample:
  "fst (near_duplicate id (snd (near_duplicate id (initial 0) ''Task: q'')) ''Task: p'') = False \<and>
   fst (near_duplicate id
     (snd (near_duplicate id (snd (near_duplicate id (initial 0) ''Task: q'')) ''Task: p''))
     ''Task: p'') = True \<and>
   length (''Task: q'' # fresh_prompts 4095) = 4096 \<and>
   distinct (''Task: q'' # fresh_prompts 4095) \<and>
   ''Task: p'' \<notin> set (''Task: q'' # fresh_prompts 4095) \<and>
   fst (near_duplicate id
     (snd (dedup_checks id
        (snd (near_duplicate id (snd (near_duplicate id (initial 0) ''Task: q'')) ''Task: p''))
        (''Task: q'' # fresh_prompts 4095)))
     ''Task: p'') = True"
proof -
  let ?s0 = "snd (near_duplicate id (initial 0) ''Task: q'')"
  let ?s1 = "snd (near_duplicate id ?s0 ''Task: p'')"
  let ?run = "dedup_checks id ?s1 (fresh_prompts 4095)"
  have a: "fst (near_duplicate id ?s0 ''Task: p'') = False" by code_simp
  have b: "fst (near_duplicate id ?s1 ''Task: p'') = True" by code_simp
  have c: "length (''Task: q'' # fresh_prompts 4095) = 4096" by (simp add: fresh_prompts_def)
  have nq: "''Task: q'' \<notin> set (fresh_prompts 4095)"
    using fresh_sixth_char[of "''Task: q''" 4095] by auto
  have np: "''Task: p'' \<notin> set (fresh_prompts 4095)"
    using fresh_sixth_char[of "''Task: p''" 4095] by auto
  have d: "distinct (''Task: q'' # fresh_prompts 4095)"
    using nq distinct_fresh[of 4095] by simp
  have e: "''Task: p'' \<notin> set (''Task: q'' # fresh_prompts 4095)" using np by simp
  have q_again: "near_duplicate id ?s1 ''Task: q'' = (True, ?s1)"
    by (rule near_duplicate_present) (simp only: ring_after_q_p, code_simp)
  have run: "snd (dedup_checks id ?s1 (''Task: q'' # fresh_prompts 4095)) = snd ?run"
    by (simp add: q_again split_beta)
  have fp: "id (lower (strip ''Task: p'')) = ''task: p''" by code_simp
  have held: "held_with_newer ''task: p'' 0 (RECENT_HASHES ?s1)"
    unfolding ring_after_q_p held_with_newer_def
    by - (rule exI[of _ "[''task: q'']"], rule exI[of _ "[]"], simp add: RECENT_HASHES_maxlen_def)
  have "?run = (fst ?run, snd ?run)" by simp
  from run_keeps[OF this held]
  have "''task: p'' \<in> set (RECENT_HASHES (snd ?run))"
    by (simp add: fresh_prompts_def RECENT_HASHES_maxlen_def)
  then have "id (lower (strip ''Task: p'')) \<in> set (RECENT_HASHES (snd ?run))"
    by (simp only: fp)
  then have "near_duplicate id (snd ?run) ''Task: p'' = (True, snd ?run)"
    by (rule near_duplicate_present)
  then have f: "fst (near_duplicate id (snd (dedup_checks id ?s1 (''Task: q'' # fresh_prompts 4095)))
     ''Task: p'') = True"
    by (simp only: run fst_conv)
  show ?thesis by (intro conjI a b c d e f)
qed

section \<open>Token bucket: refill in double precision\<close>

lemma binary64_eval:
  assumes "2 ^ 52 \<le> \<bar>x\<bar> * 2 ^ k" and "\<bar>x\<bar> * 2 ^ k < 2 ^ 53"
  shows "binary64 x = of_int (round_half_even (x * 2 ^ k)) / 2 ^ k"
proof -
  have pos: "0 < \<bar>x\<bar>"
  proof (rule ccontr)
    assume "\<not> 0 < \<bar>x\<bar>"
    then have "\<bar>x\<bar> * 2 ^ k = 0" by simp
    with assms(1) show False by simp
  qed
  then have nz: "x \<noteq> 0" by simp
  have p1: "(2::real) powr (52 - real k) = 2 ^ 52 / 2 ^ k"
    by (simp add: powr_diff powr_realpow flip: powr_numeral)
  have p2: "(2::real) powr (53 - real k) = 2 ^ 53 / 2 ^ k"
    by (simp add: powr_diff powr_realpow flip: powr_numeral)
  have lo: "(2::real) powr (52 - real k) \<le> \<bar>x\<bar>"
    unfolding p1 using assms(1) by (simp add: field_simps)
  have hi: "\<bar>x\<bar> < (2::real) powr (53 - real k)"
    unfolding p2 using assms(2) by (simp add: field_simps)
  have l1: "52 - real k \<le> log 2 \<bar>x\<bar>" using lo pos by (simp add: le_log_iff)
  have l2: "log 2 \<bar>x\<bar> < 53 - real k" using hi pos by (simp add: log_less_iff)
  have "\<lfloor>log 2 \<bar>x\<bar>\<rfloor> = 52 - int k"
    by (rule floor_unique) (use l1 l2 in simp_all)
  then have e: "\<lfloor>log 2 \<bar>x\<bar>\<rfloor> - 52 = - int k" by simp
  have pw: "(2::real) powr (of_int (- int k)) = 1 / 2 ^ k"
    by (simp add: powr_minus_divide powr_realpow)
  show ?thesis using nz by (simp add: binary64_def e pw Let_def del: of_int_minus)
qed

lemma round_half_even_error: "\<bar>of_int (round_half_even q) - q\<bar> \<le> 1 / 2"
proof -
  have "of_int \<lfloor>q\<rfloor> \<le> q" "q < of_int \<lfloor>q\<rfloor> + 1" by linarith+
  then show ?thesis by (auto simp: round_half_even_def Let_def)
qed

lemma binary64_error: "\<bar>binary64 x - x\<bar> \<le> \<bar>x\<bar> / 2 ^ 53"
proof (cases "x = 0")
  case True
  then show ?thesis by (simp add: binary64_def)
next
  case False
  define e where "e = \<lfloor>log 2 \<bar>x\<bar>\<rfloor> - 52"
  define u where "u = (2::real) powr (of_int e)"
  have u0: "0 < u" by (simp add: u_def)
  have fl: "binary64 x = of_int (round_half_even (x / u)) * u"
    using False by (simp add: binary64_def e_def u_def Let_def)
  have "binary64 x - x = (of_int (round_half_even (x / u)) - x / u) * u"
    using u0 by (simp add: fl field_simps)
  then have "\<bar>binary64 x - x\<bar> = \<bar>of_int (round_half_even (x / u)) - x / u\<bar> * u"
    using u0 by (simp add: abs_mult)
  also have "\<dots> \<le> 1 / 2 * u"
    using round_half_even_error[of "x / u"] u0 by (intro mult_right_mono) simp_all
  finally have 1: "\<bar>binary64 x - x\<bar> \<le> u / 2" by simp
  have "of_int e \<le> log 2 \<bar>x\<bar> - 52" by (simp add: e_def)
  then have "u \<le> 2 powr (log 2 \<bar>x\<bar> - 52)" unfolding u_def by (simp add: powr_mono)
  also have "\<dots> = \<bar>x\<bar> / 2 ^ 52"
    using False by (simp add: powr_diff flip: powr_numeral)
  finally have "u / 2 \<le> \<bar>x\<bar> / 2 ^ 53" by simp
  with 1 show ?thesis by linarith
qed

lemma refill_rounding_error:
  assumes "0 \<le> e" and "0 \<le> r"
  shows "\<bar>binary64 (0 + binary64 (binary64 (e / 60) * r)) - e / 60 * r\<bar>
           \<le> ((1 + 1 / 2 ^ 53) ^ 3 - 1) * (e / 60 * r)"
proof -
  define d :: real where "d = 1 / 2 ^ 53"
  define a where "a = e / 60"
  define x1 where "x1 = binary64 a"
  define x2 where "x2 = binary64 (x1 * r)"
  define x3 where "x3 = binary64 x2"
  have d0: "0 \<le> d" by (simp add: d_def)
  have a0: "0 \<le> a" using assms(1) by (simp add: a_def)
  have err: "\<bar>binary64 x - x\<bar> \<le> \<bar>x\<bar> * d" for x
    using binary64_error[of x] by (simp add: d_def)
  have e1: "\<bar>x1 - a\<bar> \<le> a * d" using err[of a] a0 by (simp add: x1_def)
  have y1: "\<bar>x1 * r - a * r\<bar> \<le> a * r * d"
  proof -
    have "\<bar>x1 * r - a * r\<bar> = \<bar>x1 - a\<bar> * r"
      using assms(2) by (simp add: abs_mult flip: left_diff_distrib)
    also have "\<dots> \<le> a * d * r" using e1 assms(2) by (rule mult_right_mono)
    finally show ?thesis by (simp add: mult_ac)
  qed
  have ar0: "0 \<le> a * r" using a0 assms(2) by simp
  have y2: "\<bar>x1 * r\<bar> \<le> a * r * (1 + d)"
  proof -
    have "\<bar>x1 * r\<bar> \<le> \<bar>x1 * r - a * r\<bar> + \<bar>a * r\<bar>" by linarith
    also have "\<dots> \<le> a * r * d + a * r" using y1 ar0 by simp
    also have "\<dots> = a * r * (1 + d)" by (simp add: algebra_simps)
    finally show ?thesis .
  qed
  have e2: "\<bar>x2 - x1 * r\<bar> \<le> a * r * (1 + d) * d"
  proof -
    have "\<bar>x2 - x1 * r\<bar> \<le> \<bar>x1 * r\<bar> * d" unfolding x2_def by (rule err)
    also have "\<dots> \<le> a * r * (1 + d) * d" using y2 d0 by (rule mult_right_mono)
    finally show ?thesis .
  qed
  have z2: "\<bar>x2\<bar> \<le> a * r * (1 + d) * (1 + d)"
  proof -
    have "\<bar>x2\<bar> \<le> \<bar>x2 - x1 * r\<bar> + \<bar>x1 * r\<bar>" by linarith
    also have "\<dots> \<le> a * r * (1 + d) * d + a * r * (1 + d)" using e2 y2 by linarith
    also have "\<dots> = a * r * (1 + d) * (1 + d)" by (simp add: algebra_simps)
    finally show ?thesis .
  qed
  have e3: "\<bar>x3 - x2\<bar> \<le> a * r * (1 + d) * (1 + d) * d"
  proof -
    have "\<bar>x3 - x2\<bar> \<le> \<bar>x2\<bar> * d" unfolding x3_def by (rule err)
    also have "\<dots> \<le> a * r * (1 + d) * (1 + d) * d" using z2 d0 by (rule mult_right_mono)
    finally show ?thesis .
  qed
  have "\<bar>x3 - a * r\<bar> \<le> \<bar>x3 - x2\<bar> + \<bar>x2 - x1 * r\<bar> + \<bar>x1 * r - a * r\<bar>" by linarith
  also have "\<dots> \<le> a * r * (1 + d) * (1 + d) * d + a * r * (1 + d) * d + a * r * d"
    using e3 e2 y1 by linarith
  also have "\<dots> = ((1 + d) ^ 3 - 1) * (a * r)"
    by (simp add: power3_eq_cube algebra_simps)
  finally show ?thesis by (simp add: x3_def x2_def x1_def a_def d_def)
qed

lemma min_diff: "\<bar>min b x - min b y\<bar> \<le> \<bar>x - y\<bar>" for b x y :: real
  by (auto simp: min_def)

lemma round_ten: "binary64 10 = 10"
  using binary64_eval[of 10 49] by (simp add: round_half_even_def)

lemma round_sixth: "binary64 (10 / 60) = 6004799503160661 / 2 ^ 55"
  using binary64_eval[of "10 / 60" 55] by (simp add: round_half_even_def)

lemma round_one: "binary64 (6004799503160661 / 2 ^ 55 * 6) = 1"
  using binary64_eval[of "6004799503160661 / 2 ^ 55 * 6" 53] by (simp add: round_half_even_def)

lemma round_twelfth: "binary64 (5 / 60) = 6004799503160661 / 2 ^ 56"
  using binary64_eval[of "5 / 60" 56] by (simp add: round_half_even_def)

lemma round_half: "binary64 (6004799503160661 / 2 ^ 56 * 6) = 1 / 2"
  using binary64_eval[of "6004799503160661 / 2 ^ 56 * 6" 54] by (simp add: round_half_even_def)

lemma round_unit: "binary64 1 = 1" "binary64 (1 / 2) = 1 / 2"
  using binary64_eval[of 1 52] binary64_eval[of "1 / 2" 53] by (simp_all add: round_half_even_def)

text \<open>
  C8, as the code has it. Take a bucket whose token count is 0 and let \<open>elapsed\<close> be the
  elapsed time as the check computes it, the rounded \<open>now - ts\<close>. With all
  quantities in the normal range of doubles, the count after the refill is
  \<open>min burst (elapsed / 60 * r)\<close> up to three roundings, an error of at most
  \<open>(1 + 1 / 2 ^ 53) ^ 3 - 1\<close> times \<open>elapsed / 60 * r\<close>. At the gateway's rate of 6 per
  minute an elapsed time of exactly 10 seconds gives exactly 1 token: the check is
  allowed and leaves 0; an elapsed time of exactly 5 seconds gives exactly one half, and
  the check is denied.
\<close>

theorem refill_proportional_up_to_rounding:
  assumes "bucket ''tokens'' = Some 0" and "bucket ''ts'' = Some ts" and "1 \<le> burst"
    and "elapsed = binary64 (now - ts)"
  shows "(1 / 2 ^ 900 \<le> elapsed \<and> elapsed \<le> 2 ^ 900 \<and> 1 / 2 ^ 100 \<le> r \<and> r \<le> 2 ^ 100 \<longrightarrow>
           \<bar>refilled_double bucket burst r now - min burst (elapsed / 60 * r)\<bar>
             \<le> ((1 + 1 / 2 ^ 53) ^ 3 - 1) * (elapsed / 60 * r)) \<and>
         (elapsed = 10 \<longrightarrow>
           refilled_double bucket burst RATE_LIMIT_REFILL now = 1 \<and>
           token_bucket_allow_double bucket burst RATE_LIMIT_REFILL now =
             (True, bucket(''tokens'' \<mapsto> 0, ''ts'' \<mapsto> now))) \<and>
         (elapsed = 5 \<longrightarrow>
           refilled_double bucket burst RATE_LIMIT_REFILL now = 1 / 2 \<and>
           token_bucket_allow_double bucket burst RATE_LIMIT_REFILL now =
             (False, bucket(''tokens'' \<mapsto> 1 / 2, ''ts'' \<mapsto> now)))"
proof -
  have r: "refilled_double bucket burst q now =
      min burst (binary64 (0 + binary64 (binary64 (elapsed / 60) * q)))" for q
    using assms(1,2,4) by (simp add: refilled_double_def dict_get_def Let_def)
  have a: "\<bar>refilled_double bucket burst r now - min burst (elapsed / 60 * r)\<bar>
             \<le> ((1 + 1 / 2 ^ 53) ^ 3 - 1) * (elapsed / 60 * r)"
    if "1 / 2 ^ 900 \<le> elapsed" and "1 / 2 ^ 100 \<le> r"
  proof -
    have e0: "0 \<le> elapsed" using that(1) by (rule order_trans[rotated]) simp
    have r0: "0 \<le> r" using that(2) by (rule order_trans[rotated]) simp
    have "\<bar>refilled_double bucket burst r now - min burst (elapsed / 60 * r)\<bar>
        \<le> \<bar>binary64 (0 + binary64 (binary64 (elapsed / 60) * r)) - elapsed / 60 * r\<bar>"
      unfolding r by (rule min_diff)
    also have "\<dots> \<le> ((1 + 1 / 2 ^ 53) ^ 3 - 1) * (elapsed / 60 * r)"
      by (rule refill_rounding_error[OF e0 r0])
    finally show ?thesis .
  qed
  have ten: "refilled_double bucket burst RATE_LIMIT_REFILL now = 1" if "elapsed = 10"
  proof -
    have 1: "binary64 (elapsed / 60) = 6004799503160661 / 2 ^ 55"
      unfolding that by (rule round_sixth)
    have 2: "binary64 (6004799503160661 / 2 ^ 55 * RATE_LIMIT_REFILL) = 1"
      unfolding RATE_LIMIT_REFILL_def by (rule round_one)
    have 3: "binary64 (0 + 1) = 1" using round_unit(1) by simp
    show ?thesis unfolding r 1 2 3 using assms(3) by simp
  qed
  have five: "refilled_double bucket burst RATE_LIMIT_REFILL now = 1 / 2" if "elapsed = 5"
  proof -
    have 1: "binary64 (elapsed / 60) = 6004799503160661 / 2 ^ 56"
      unfolding that by (rule round_twelfth)
    have 2: "binary64 (6004799503160661 / 2 ^ 56 * RATE_LIMIT_REFILL) = 1 / 2"
      unfolding RATE_LIMIT_REFILL_def by (rule round_half)
    have 3: "binary64 (0 + 1 / 2) = 1 / 2" using round_unit(2) by simp
    show ?thesis unfolding r 1 2 3 using assms(3) by simp
  qed
  have z: "binary64 0 = 0" by (simp add: binary64_def)
  have b: "token_bucket_allow_double bucket burst RATE_LIMIT_REFILL now =
             (True, bucket(''tokens'' \<mapsto> 0, ''ts'' \<mapsto> now))" if "elapsed = 10"
    by (simp add: token_bucket_allow_double_def ten[OF that] z)
  have c: "token_bucket_allow_double bucket burst RATE_LIMIT_REFILL now =
             (False, bucket(''tokens'' \<mapsto> 1 / 2, ''ts'' \<mapsto> now))" if "elapsed = 5"
    by (simp add: token_bucket_allow_double_def five[OF that])
  show ?thesis using a ten five b c by blast
qed

theorem refill_proportional_up_to_rounding_witness:
  "binary64 (110 - 100) = 10 \<and> binary64 (105 - 100) = 5 \<and>
   refilled_double [''tokens'' \<mapsto> 0, ''ts'' \<mapsto> 100] RATE_LIMIT_BURST RATE_LIMIT_REFILL 110 = 1 \<and>
   token_bucket_allow_double [''tokens'' \<mapsto> 0, ''ts'' \<mapsto> 100] RATE_LIMIT_BURST RATE_LIMIT_REFILL 110 =
     (True, [''tokens'' \<mapsto> 0, ''ts'' \<mapsto> 110]) \<and>
   token_bucket_allow_double [''tokens'' \<mapsto> 0, ''ts'' \<mapsto> 100] RATE_LIMIT_BURST RATE_LIMIT_REFILL 105 =
     (False, [''tokens'' \<mapsto> 1 / 2, ''ts'' \<mapsto> 105]) \<and>
   \<bar>refilled_double [''tokens'' \<mapsto> 0, ''ts'' \<mapsto> 100] RATE_LIMIT_BURST 7 110
      - min RATE_LIMIT_BURST (10 / 60 * 7)\<bar> \<le> ((1 + 1 / 2 ^ 53) ^ 3 - 1) * (10 / 60 * 7)"
proof -
  let ?b = "[''tokens'' \<mapsto> 0, ''ts'' \<mapsto> 100 :: real]"
  have h1: "?b ''tokens'' = Some 0" by simp
  have h2: "?b ''ts'' = Some 100" by simp
  have h3: "1 \<le> RATE_LIMIT_BURST" by (simp add: RATE_LIMIT_BURST_def)
  have e10: "binary64 (110 - 100) = 10" using round_ten by simp
  have e5: "binary64 (105 - 100) = 5"
    using binary64_eval[of 5 50] by (simp add: round_half_even_def)
  have rng: "1 / 2 ^ 900 \<le> (10::real) \<and> (10::real) \<le> 2 ^ 900 \<and> 1 / 2 ^ 100 \<le> (7::real) \<and> (7::real) \<le> 2 ^ 100"
    by simp
  note t10 = refill_proportional_up_to_rounding[where bucket = ?b and ts = 100 and now = 110
      and burst = RATE_LIMIT_BURST and elapsed = 10 and r = 7, OF h1 h2 h3 e10[symmetric]]
  note t5 = refill_proportional_up_to_rounding[where bucket = ?b and ts = 100 and now = 105
      and burst = RATE_LIMIT_BURST and elapsed = 5 and r = 7, OF h1 h2 h3 e5[symmetric]]
  have a: "refilled_double ?b RATE_LIMIT_BURST RATE_LIMIT_REFILL 110 = 1"
    using t10 by blast
  have b: "token_bucket_allow_double ?b RATE_LIMIT_BURST RATE_LIMIT_REFILL 110 =
     (True, ?b(''tokens'' \<mapsto> 0, ''ts'' \<mapsto> 110))" using t10 by blast
  have c: "token_bucket_allow_double ?b RATE_LIMIT_BURST RATE_LIMIT_REFILL 105 =
     (False, ?b(''tokens'' \<mapsto> 1 / 2, ''ts'' \<mapsto> 105))" using t5 by blast
  have d: "\<bar>refilled_double ?b RATE_LIMIT_BURST 7 110 - min RATE_LIMIT_BURST (10 / 60 * 7)\<bar>
      \<le> ((1 + 1 / 2 ^ 53) ^ 3 - 1) * (10 / 60 * 7)"
    using t10 rng by blast
  have u1: "?b(''tokens'' \<mapsto> 0, ''ts'' \<mapsto> 110) = [''tokens'' \<mapsto> 0, ''ts'' \<mapsto> 110]" by simp
  have u2: "?b(''tokens'' \<mapsto> 1 / 2, ''ts'' \<mapsto> 105) = [''tokens'' \<mapsto> 1 / 2, ''ts'' \<mapsto> 105]"
    by simp
  show ?thesis using e10 e5 a b c d unfolding u1 u2 by blast
qed

lemma rate7_steps:
  "binary64 (60 / 7) = 4825285315039817 / 2 ^ 49"
  "binary64 (100 + 4825285315039817 / 2 ^ 49) = 7640035082146377 / 2 ^ 46"
  "binary64 (7640035082146377 / 2 ^ 46 - 100) = 4825285315039816 / 2 ^ 49"
  "binary64 (4825285315039816 / 2 ^ 49 / 60) = 5146971002709137 / 2 ^ 55"
  "binary64 (5146971002709137 / 2 ^ 55 * 7) = 9007199254740990 / 2 ^ 53"
  "binary64 (0 + 9007199254740990 / 2 ^ 53) = 9007199254740990 / 2 ^ 53"
  using binary64_eval[of "60 / 7" 49]
    binary64_eval[of "100 + 4825285315039817 / 2 ^ 49" 46]
    binary64_eval[of "7640035082146377 / 2 ^ 46 - 100" 49]
    binary64_eval[of "4825285315039816 / 2 ^ 49 / 60" 55]
    binary64_eval[of "5146971002709137 / 2 ^ 55 * 7" 53]
    binary64_eval[of "0 + 9007199254740990 / 2 ^ 53" 53]
  by (simp_all add: round_half_even_def)

lemma rate6_steps:
  "binary64 (64 / 10) = 7205759403792794 / 2 ^ 50"
  "binary64 (7205759403792794 / 2 ^ 50 + 60 / 6) = 4616189618054758 / 2 ^ 48"
  "binary64 (4616189618054758 / 2 ^ 48 - 7205759403792794 / 2 ^ 50) = 5629499534213119 / 2 ^ 49"
  "binary64 (5629499534213119 / 2 ^ 49 / 60) = 6004799503160660 / 2 ^ 55"
  "binary64 (6004799503160660 / 2 ^ 55 * 6) = 9007199254740990 / 2 ^ 53"
  using binary64_eval[of "64 / 10" 50]
    binary64_eval[of "7205759403792794 / 2 ^ 50 + 60 / 6" 48]
    binary64_eval[of "4616189618054758 / 2 ^ 48 - 7205759403792794 / 2 ^ 50" 49]
    binary64_eval[of "5629499534213119 / 2 ^ 49 / 60" 55]
    binary64_eval[of "6004799503160660 / 2 ^ 55 * 6" 53]
  by (simp_all add: round_half_even_def)

text \<open>
  Against C8 as stated: at 7 tokens per minute, a bucket at 0 tokens with timestamp 100.0
  is checked at 100.0 + 60/7 as doubles compute it; the elapsed time comes out one unit
  in the last place short, the count is 0.9999999999999998 and the check is denied. The
  same happens at the gateway's own rate of 6 with the timestamp 6.4 and the check at
  6.4 + 10.0.
\<close>

theorem refill_counterexample:
  "refilled_double [''tokens'' \<mapsto> 0, ''ts'' \<mapsto> 100] RATE_LIMIT_BURST 7
     (binary64 (100 + binary64 (60 / 7))) = 9007199254740990 / 2 ^ 53 \<and>
   fst (token_bucket_allow_double [''tokens'' \<mapsto> 0, ''ts'' \<mapsto> 100] RATE_LIMIT_BURST 7
     (binary64 (100 + binary64 (60 / 7)))) = False \<and>
   binary64 (64 / 10) = 7205759403792794 / 2 ^ 50 \<and>
   refilled_double [''tokens'' \<mapsto> 0, ''ts'' \<mapsto> 7205759403792794 / 2 ^ 50] RATE_LIMIT_BURST
     RATE_LIMIT_REFILL (binary64 (7205759403792794 / 2 ^ 50 + 60 / RATE_LIMIT_REFILL))
     = 9007199254740990 / 2 ^ 53 \<and>
   fst (token_bucket_allow_double [''tokens'' \<mapsto> 0, ''ts'' \<mapsto> 7205759403792794 / 2 ^ 50]
     RATE_LIMIT_BURST RATE_LIMIT_REFILL
     (binary64 (7205759403792794 / 2 ^ 50 + 60 / RATE_LIMIT_REFILL))) = False"
proof -
  have tk: "dict_get [''tokens'' \<mapsto> 0, ''ts'' \<mapsto> t] ''tokens'' d = 0" for t d :: real
    by (simp add: dict_get_def)
  have ts: "dict_get [''tokens'' \<mapsto> 0, ''ts'' \<mapsto> t] ''ts'' d = t" for t d :: real
    by (simp add: dict_get_def)
  have unf: "refilled_double [''tokens'' \<mapsto> 0, ''ts'' \<mapsto> t] burst r now =
      min burst (binary64 (0 + binary64 (binary64 (binary64 (now - t) / 60) * r)))" for t burst r now
    by (simp only: refilled_double_def Let_def tk ts)
  have lt: "(9007199254740990 :: real) / 2 ^ 53 < 1" by simp
  have m: "min RATE_LIMIT_BURST (9007199254740990 / 2 ^ 53) = 9007199254740990 / 2 ^ 53"
    by (simp add: RATE_LIMIT_BURST_def)
  have a: "refilled_double [''tokens'' \<mapsto> 0, ''ts'' \<mapsto> 100] RATE_LIMIT_BURST 7
     (binary64 (100 + binary64 (60 / 7))) = 9007199254740990 / 2 ^ 53"
    by (simp only: unf rate7_steps m)
  have r6: "60 / RATE_LIMIT_REFILL = 60 / 6" by (simp only: RATE_LIMIT_REFILL_def)
  have b: "refilled_double [''tokens'' \<mapsto> 0, ''ts'' \<mapsto> 7205759403792794 / 2 ^ 50] RATE_LIMIT_BURST
     RATE_LIMIT_REFILL (binary64 (7205759403792794 / 2 ^ 50 + 60 / RATE_LIMIT_REFILL))
     = 9007199254740990 / 2 ^ 53"
    unfolding r6 by (simp only: unf rate6_steps rate7_steps(6) m RATE_LIMIT_REFILL_def)
  have deny: "fst (token_bucket_allow_double bk burst r now) = False"
    if "refilled_double bk burst r now = 9007199254740990 / 2 ^ 53" for bk burst r now
    unfolding token_bucket_allow_double_def Let_def that using lt by simp
  show ?thesis by (intro conjI a b deny[OF a] deny[OF b] rate6_steps(1))
qed

section \<open>Secret redactor\<close>












lemma lang_Seq_iff: "m \<in> lang (Seq a b) \<longleftrightarrow> (\<exists>u v. m = u @ v \<and> u \<in> lang a \<and> v \<in> lang b)"
  by auto


lemma lang_cat_Nil: "m \<in> lang (cat []) \<longleftrightarrow> m = []"
  by simp



























end
